theory Spec2Isabelle
  imports Main "HOL-Library.AList" "HOL-Library.Sublist" "HOL-Library.Word"
begin

section \<open>JavaScript containers\<close>

text \<open>
  A JavaScript \<^verbatim>\<open>Map\<close> iterates in insertion order and \<^verbatim>\<open>set\<close> on an existing
  key replaces the value in place: an association list with \<open>map_of\<close> for
  \<^verbatim>\<open>get\<close>, \<open>AList.update\<close> for \<^verbatim>\<open>set\<close> and \<open>AList.delete\<close> for \<^verbatim>\<open>delete\<close>.
  A \<^verbatim>\<open>Set\<close> of strings is a list in insertion order; \<^verbatim>\<open>add\<close> appends an element
  that is not yet a member.
\<close>

definition set_add :: "'a \<Rightarrow> 'a list \<Rightarrow> 'a list" where
  "set_add x xs = (if x \<in> set xs then xs else xs @ [x])"

text \<open>
  The idiom \<^verbatim>\<open>if (!m.has(k)) m.set(k, new Set()); m.get(k).add(v)\<close> on a map of sets.
\<close>

definition get_or_empty :: "('k \<times> 'a list) list \<Rightarrow> 'k \<Rightarrow> 'a list" where
  "get_or_empty m k = (case map_of m k of None \<Rightarrow> [] | Some s \<Rightarrow> s)"

definition map_set_add :: "'k \<Rightarrow> 'a \<Rightarrow> ('k \<times> 'a list) list \<Rightarrow> ('k \<times> 'a list) list" where
  "map_set_add k v m = AList.update k (set_add v (get_or_empty m k)) m"

section \<open>Module graph builder (graphBuilder.ts)\<close>

record PortInfo =
  port_name :: string
  port_direction :: string
  port_type :: string

record ModuleInfo =
  mi_name :: string
  filePath :: string
  mi_startLine :: int
  mi_endLine :: int
  mi_ports :: "PortInfo list"

datatype Direction = Input | Output | Inout

record ConnectionInfo =
  portName :: string
  signalName :: string
  direction :: Direction

record InstanceInfo =
  inst_name :: string
  moduleType :: string
  connections :: "ConnectionInfo list"
  inst_file :: string
  inst_line :: int

record ModuleNode =
  node_id :: string
  node_name :: string
  node_file :: string
  node_ports :: "PortInfo list"
  node_parameters :: "(string \<times> string) list"
  instances :: "InstanceInfo list"

record PortRef =
  ref_module :: string
  ref_port :: string

record SignalFlow =
  flow_from :: PortRef
  flow_to :: PortRef
  signal :: string
  path :: "string list"

record ModuleGraph =
  nodes :: "(string \<times> ModuleNode) list"
  edges :: "(string \<times> string list) list"
  reverseEdges :: "(string \<times> string list) list"
  signalFlows :: "SignalFlow list"

definition empty_graph :: ModuleGraph where
  "empty_graph = \<lparr>nodes = [], edges = [], reverseEdges = [], signalFlows = []\<rparr>"

definition findModuleByFile :: "string \<Rightarrow> ModuleInfo list \<Rightarrow> ModuleInfo option" where
  "findModuleByFile file modules = List.find (\<lambda>m. filePath m = file) modules"

definition addEdge :: "string \<Rightarrow> string \<Rightarrow> ModuleGraph \<Rightarrow> ModuleGraph" where
  "addEdge src dst g =
     g\<lparr>edges := map_set_add src dst (edges g),
       reverseEdges := map_set_add dst src (reverseEdges g)\<rparr>"

definition traceSignalFlow ::
  "ModuleGraph \<Rightarrow> string \<Rightarrow> InstanceInfo \<Rightarrow> ConnectionInfo \<Rightarrow> SignalFlow option" where
  "traceSignalFlow g parentModule inst conn =
     (case map_of (nodes g) (moduleType inst) of
        None \<Rightarrow> None
      | Some childModule \<Rightarrow>
          (case List.find (\<lambda>p. port_name p = portName conn) (node_ports childModule) of
             None \<Rightarrow> None
           | Some childPort \<Rightarrow>
               Some \<lparr>flow_from =
                       \<lparr>ref_module = (if direction conn = Input then parentModule else moduleType inst),
                        ref_port = (if direction conn = Input then signalName conn else portName conn)\<rparr>,
                     flow_to =
                       \<lparr>ref_module = (if direction conn = Input then moduleType inst else parentModule),
                        ref_port = (if direction conn = Input then portName conn else signalName conn)\<rparr>,
                     signal = signalName conn,
                     path = [parentModule, moduleType inst]\<rparr>))"

text \<open>
  The three nested \<^verbatim>\<open>for\<close> loops of \<^verbatim>\<open>buildSignalFlows\<close>; a flow that is not
  \<^verbatim>\<open>null\<close> is pushed onto \<^verbatim>\<open>signalFlows\<close>.
\<close>

definition flow_step :: "string \<Rightarrow> InstanceInfo \<Rightarrow> ConnectionInfo \<Rightarrow> ModuleGraph \<Rightarrow> ModuleGraph" where
  "flow_step moduleName inst conn g =
     (case traceSignalFlow g moduleName inst conn of
        None \<Rightarrow> g
      | Some flow \<Rightarrow> g\<lparr>signalFlows := signalFlows g @ [flow]\<rparr>)"

definition buildSignalFlows :: "ModuleGraph \<Rightarrow> ModuleGraph" where
  "buildSignalFlows g =
     fold (\<lambda>(moduleName, node).
             fold (\<lambda>inst. fold (flow_step moduleName inst) (connections inst)) (instances node))
          (nodes g) g"

definition add_node :: "ModuleInfo \<Rightarrow> ModuleGraph \<Rightarrow> ModuleGraph" where
  "add_node m g =
     g\<lparr>nodes := AList.update (mi_name m)
         \<lparr>node_id = mi_name m, node_name = mi_name m, node_file = filePath m,
          node_ports = mi_ports m, node_parameters = [], instances = []\<rparr> (nodes g)\<rparr>"

definition attach_instance :: "string \<Rightarrow> InstanceInfo \<Rightarrow> ModuleGraph \<Rightarrow> ModuleGraph" where
  "attach_instance parent inst g =
     (case map_of (nodes g) parent of
        None \<Rightarrow> g
      | Some parentNode \<Rightarrow>
          g\<lparr>nodes := AList.update parent
              (parentNode\<lparr>instances := instances parentNode @ [inst]\<rparr>) (nodes g)\<rparr>)"

definition add_instance :: "ModuleInfo list \<Rightarrow> InstanceInfo \<Rightarrow> ModuleGraph \<Rightarrow> ModuleGraph" where
  "add_instance modules inst g =
     (case findModuleByFile (inst_file inst) modules of
        None \<Rightarrow> g
      | Some parentModule \<Rightarrow>
          addEdge (mi_name parentModule) (moduleType inst)
            (attach_instance (mi_name parentModule) inst g))"

definition buildGraph :: "ModuleInfo list \<Rightarrow> InstanceInfo list \<Rightarrow> ModuleGraph" where
  "buildGraph modules insts =
     buildSignalFlows (fold (add_instance modules) insts (fold add_node modules empty_graph))"

section \<open>Edge symmetry\<close>

definition edge_sym :: "ModuleGraph \<Rightarrow> bool" where
  "edge_sym g =
     (\<forall>a b. (b \<in> set (get_or_empty (edges g) a)) = (a \<in> set (get_or_empty (reverseEdges g) b)))"

lemma set_set_add [simp]: "set (set_add x xs) = insert x (set xs)"
  by (auto simp: set_add_def)

lemma get_or_empty_map_set_add:
  "get_or_empty (map_set_add k v m) k' =
     (if k' = k then set_add v (get_or_empty m k) else get_or_empty m k')"
  by (simp add: get_or_empty_def map_set_add_def update_conv')

lemma edge_sym_empty: "edge_sym empty_graph"
  by (simp add: edge_sym_def empty_graph_def get_or_empty_def)

lemma edge_sym_addEdge: "edge_sym g \<Longrightarrow> edge_sym (addEdge a b g)"
  by (auto simp: edge_sym_def addEdge_def get_or_empty_map_set_add)

lemma edges_add_node [simp]:
  "edges (add_node m g) = edges g" "reverseEdges (add_node m g) = reverseEdges g"
  by (simp_all add: add_node_def)

lemma edges_attach_instance [simp]:
  "edges (attach_instance p i g) = edges g"
  "reverseEdges (attach_instance p i g) = reverseEdges g"
  by (simp_all add: attach_instance_def split: option.splits)

lemma edges_flow_step [simp]:
  "edges (flow_step p i c g) = edges g" "reverseEdges (flow_step p i c g) = reverseEdges g"
  by (simp_all add: flow_step_def split: option.splits)

lemma edge_sym_cong:
  "edges g' = edges g \<Longrightarrow> reverseEdges g' = reverseEdges g \<Longrightarrow> edge_sym g' = edge_sym g"
  by (simp add: edge_sym_def)

lemma edge_sym_add_instance: "edge_sym g \<Longrightarrow> edge_sym (add_instance ms i g)"
  by (auto simp: add_instance_def edge_sym_cong [of "attach_instance _ _ _"]
      intro!: edge_sym_addEdge split: option.splits)

lemma edge_sym_fold_add_node: "edge_sym g \<Longrightarrow> edge_sym (fold add_node ms g)"
  by (induction ms arbitrary: g) (simp_all add: edge_sym_cong [of "add_node _ _"])

lemma edge_sym_fold_add_instance: "edge_sym g \<Longrightarrow> edge_sym (fold (add_instance ms) is g)"
  by (induction "is" arbitrary: g) (simp_all add: edge_sym_add_instance)

lemma edges_fold_flow_step [simp]:
  "edges (fold (flow_step p i) cs g) = edges g"
  "reverseEdges (fold (flow_step p i) cs g) = reverseEdges g"
  by (induction cs arbitrary: g) simp_all

lemma edges_fold_inst [simp]:
  "edges (fold (\<lambda>inst. fold (flow_step p inst) (connections inst)) is g) = edges g"
  "reverseEdges (fold (\<lambda>inst. fold (flow_step p inst) (connections inst)) is g) = reverseEdges g"
  by (induction "is" arbitrary: g) simp_all

lemma edges_fold_nodes [simp]:
  "edges (fold (\<lambda>(moduleName, node).
             fold (\<lambda>inst. fold (flow_step moduleName inst) (connections inst)) (instances node))
          ns g) = edges g"
  "reverseEdges (fold (\<lambda>(moduleName, node).
             fold (\<lambda>inst. fold (flow_step moduleName inst) (connections inst)) (instances node))
          ns g) = reverseEdges g"
  by (induction ns arbitrary: g) (simp_all split: prod.splits)

lemma edges_buildSignalFlows [simp]:
  "edges (buildSignalFlows g) = edges g" "reverseEdges (buildSignalFlows g) = reverseEdges g"
  by (simp_all add: buildSignalFlows_def)

text \<open>
  C3. In every graph that \<open>buildGraph\<close> returns, for all module names \<open>a\<close> and \<open>b\<close>,
  \<open>b\<close> is in the forward-edge set of \<open>a\<close> exactly when \<open>a\<close> is in the reverse-edge set
  of \<open>b\<close>.
\<close>

theorem buildGraph_edges_symmetric:
  "(b \<in> set (get_or_empty (edges (buildGraph modules insts)) a)) =
   (a \<in> set (get_or_empty (reverseEdges (buildGraph modules insts)) b))"
proof -
  have "edge_sym (fold (add_instance modules) insts (fold add_node modules empty_graph))"
    by (intro edge_sym_fold_add_instance edge_sym_fold_add_node edge_sym_empty)
  then have "edge_sym (buildGraph modules insts)"
    by (simp add: buildGraph_def edge_sym_cong [of "buildSignalFlows _"])
  then show ?thesis
    by (simp add: edge_sym_def)
qed


section \<open>Signal flow edges\<close>

definition flows_of :: "ModuleGraph \<Rightarrow> SignalFlow list" where
  "flows_of g =
     concat (map (\<lambda>(moduleName, node).
        concat (map (\<lambda>inst. List.map_filter (traceSignalFlow g moduleName inst) (connections inst))
                 (instances node))) (nodes g))"

lemma traceSignalFlow_nodes_cong:
  "nodes g' = nodes g \<Longrightarrow> traceSignalFlow g' p i c = traceSignalFlow g p i c"
  by (simp add: traceSignalFlow_def)

lemma traceSignalFlow_signalFlows_update [simp]:
  "traceSignalFlow (g\<lparr>signalFlows := fs\<rparr>) = traceSignalFlow g"
  by (intro ext) (simp add: traceSignalFlow_def)

lemma nodes_flow_step [simp]: "nodes (flow_step p i c g) = nodes g"
  by (simp add: flow_step_def split: option.splits)

lemma flows_fold_flow_step:
  "nodes (fold (flow_step p i) cs g) = nodes g \<and>
   signalFlows (fold (flow_step p i) cs g) =
     signalFlows g @ List.map_filter (traceSignalFlow g p i) cs"
proof (induction cs arbitrary: g)
  case Nil
  show ?case by simp
next
  case (Cons c cs)
  have n: "nodes (flow_step p i c g) = nodes g" by simp
  show ?case
    using Cons [of "flow_step p i c g"]
    by (auto simp: traceSignalFlow_nodes_cong [OF n] flow_step_def split: option.splits)
qed


lemma flows_fold_inst:
  "nodes (fold (\<lambda>inst. fold (flow_step p inst) (connections inst)) is g) = nodes g \<and>
   signalFlows (fold (\<lambda>inst. fold (flow_step p inst) (connections inst)) is g) =
     signalFlows g @
     concat (map (\<lambda>inst. List.map_filter (traceSignalFlow g p inst) (connections inst)) is)"
proof (induction "is" arbitrary: g)
  case Nil
  show ?case by simp
next
  case (Cons i "is")
  let ?g = "fold (flow_step p i) (connections i) g"
  have n: "nodes ?g = nodes g" using flows_fold_flow_step by blast
  have t: "\<And>inst. traceSignalFlow ?g p inst = traceSignalFlow g p inst"
    by (intro ext traceSignalFlow_nodes_cong n)
  show ?case
    using Cons [of ?g] flows_fold_flow_step [of p i "connections i" g]
    by (simp add: t)
qed

lemma flows_fold_nodes:
  "nodes (fold (\<lambda>(moduleName, node).
             fold (\<lambda>inst. fold (flow_step moduleName inst) (connections inst)) (instances node))
          ns g) = nodes g \<and>
   signalFlows (fold (\<lambda>(moduleName, node).
             fold (\<lambda>inst. fold (flow_step moduleName inst) (connections inst)) (instances node))
          ns g) =
     signalFlows g @
     concat (map (\<lambda>(moduleName, node).
        concat (map (\<lambda>inst. List.map_filter (traceSignalFlow g moduleName inst) (connections inst))
                 (instances node))) ns)"
proof (induction ns arbitrary: g)
  case Nil
  show ?case by simp
next
  case (Cons a ns)
  obtain p node where a: "a = (p, node)" by (cases a)
  let ?g = "fold (\<lambda>inst. fold (flow_step p inst) (connections inst)) (instances node) g"
  have n: "nodes ?g = nodes g" using flows_fold_inst by blast
  have t: "\<And>q inst. traceSignalFlow ?g q inst = traceSignalFlow g q inst"
    by (intro ext traceSignalFlow_nodes_cong n)
  show ?case
    using Cons [of ?g] flows_fold_inst [of p "instances node" g]
    by (simp add: a t)
qed

lemma buildSignalFlows_flows:
  "nodes (buildSignalFlows g) = nodes g"
  "signalFlows (buildSignalFlows g) = signalFlows g @ flows_of g"
  using flows_fold_nodes [of "nodes g" g] by (simp_all add: buildSignalFlows_def flows_of_def)


definition node_insts :: "ModuleGraph \<Rightarrow> string \<Rightarrow> InstanceInfo list" where
  "node_insts g k = (case map_of (nodes g) k of None \<Rightarrow> [] | Some n \<Rightarrow> instances n)"

lemma nodes_addEdge [simp]: "nodes (addEdge a b g) = nodes g"
  by (simp add: addEdge_def)

lemma signalFlows_addEdge [simp]: "signalFlows (addEdge a b g) = signalFlows g"
  by (simp add: addEdge_def)

lemma signalFlows_add_node [simp]: "signalFlows (add_node m g) = signalFlows g"
  by (simp add: add_node_def)

lemma signalFlows_add_instance [simp]: "signalFlows (add_instance ms i g) = signalFlows g"
  by (simp add: add_instance_def attach_instance_def split: option.splits)

lemma signalFlows_fold_add_node [simp]: "signalFlows (fold add_node ms g) = signalFlows g"
  by (induction ms arbitrary: g) simp_all

lemma signalFlows_fold_add_instance [simp]:
  "signalFlows (fold (add_instance ms) is g) = signalFlows g"
  by (induction "is" arbitrary: g) simp_all

lemma has_node_add_node:
  "(map_of (nodes (add_node m g)) k = None) = (k \<noteq> mi_name m \<and> map_of (nodes g) k = None)"
  by (simp add: add_node_def update_conv')

lemma has_node_fold_add_node:
  "(map_of (nodes (fold add_node ms g)) k = None) =
     (k \<notin> mi_name ` set ms \<and> map_of (nodes g) k = None)"
  by (induction ms arbitrary: g) (auto simp: has_node_add_node)

lemma has_node_attach:
  "(map_of (nodes (attach_instance p i g)) k = None) = (map_of (nodes g) k = None)"
  by (auto simp: attach_instance_def update_conv' split: option.splits)

lemma has_node_add_instance:
  "(map_of (nodes (add_instance ms i g)) k = None) = (map_of (nodes g) k = None)"
  by (simp add: add_instance_def has_node_attach split: option.splits)

lemma node_insts_attach:
  "node_insts (attach_instance p i g) k =
     (if k = p \<and> map_of (nodes g) p \<noteq> None then node_insts g k @ [i] else node_insts g k)"
  by (auto simp: node_insts_def attach_instance_def update_conv' split: option.splits)

lemma node_insts_add_instance:
  "node_insts (add_instance ms i g) k =
     (case findModuleByFile (inst_file i) ms of
        None \<Rightarrow> node_insts g k
      | Some pm \<Rightarrow>
          if k = mi_name pm \<and> map_of (nodes g) k \<noteq> None then node_insts g k @ [i]
          else node_insts g k)"
proof (cases "findModuleByFile (inst_file i) ms")
  case None
  then show ?thesis by (simp add: add_instance_def)
next
  case (Some pm)
  have "node_insts (addEdge a b h) k = node_insts h k" for a b h
    by (simp add: node_insts_def)
  then show ?thesis
    using Some by (simp add: add_instance_def node_insts_attach)
qed

text \<open>The instance list of a node after the instance loop: the instances whose file
  resolves to a module of that name, in input order.\<close>

lemma node_insts_fold_add_instance:
  "map_of (nodes g) k \<noteq> None \<Longrightarrow>
   node_insts (fold (add_instance ms) is g) k =
     node_insts g k @
     filter (\<lambda>i. map_option mi_name (findModuleByFile (inst_file i) ms) = Some k) is"
proof (induction "is" arbitrary: g)
  case Nil
  show ?case by simp
next
  case (Cons i "is")
  have "map_of (nodes (add_instance ms i g)) k \<noteq> None"
    using Cons.prems by (simp add: has_node_add_instance)
  from Cons.IH [OF this] Cons.prems show ?case
    by (auto simp: node_insts_add_instance split: option.splits)
qed

lemma node_insts_fold_add_node:
  "map_of (nodes g) k = None \<Longrightarrow> node_insts (fold add_node ms g) k = []"
proof (induction ms arbitrary: g rule: rev_induct)
  case Nil
  then show ?case by (simp add: node_insts_def)
next
  case (snoc m ms)
  then show ?case
    by (auto simp: node_insts_def add_node_def update_conv' split: option.splits)
qed

lemma findModuleByFile_SomeD:
  "findModuleByFile f ms = Some pm \<Longrightarrow> pm \<in> set ms \<and> filePath pm = f"
  by (auto simp: findModuleByFile_def find_Some_iff)

lemma buildGraph_nodes:
  "nodes (buildGraph ms is) = nodes (fold (add_instance ms) is (fold add_node ms empty_graph))"
  by (simp add: buildGraph_def buildSignalFlows_flows)

lemma buildGraph_has_node:
  "(map_of (nodes (buildGraph ms is)) k = None) = (k \<notin> mi_name ` set ms)"
proof -
  have "(map_of (nodes (fold (add_instance ms) is g)) k = None) = (map_of (nodes g) k = None)" for g
    by (induction "is" arbitrary: g) (simp_all add: has_node_add_instance)
  then show ?thesis
    by (simp add: buildGraph_nodes has_node_fold_add_node empty_graph_def)
qed

lemma buildGraph_node_insts:
  "k \<in> mi_name ` set ms \<Longrightarrow>
   node_insts (buildGraph ms is) k =
     filter (\<lambda>i. map_option mi_name (findModuleByFile (inst_file i) ms) = Some k) is"
proof -
  assume k: "k \<in> mi_name ` set ms"
  let ?g1 = "fold add_node ms empty_graph"
  have h: "map_of (nodes ?g1) k \<noteq> None"
    using k by (simp add: has_node_fold_add_node)
  have e: "node_insts ?g1 k = []"
    by (rule node_insts_fold_add_node) (simp add: empty_graph_def)
  have "node_insts (buildGraph ms is) k = node_insts (fold (add_instance ms) is ?g1) k"
    by (simp add: node_insts_def buildGraph_nodes)
  then show ?thesis
    using node_insts_fold_add_instance [OF h, of ms "is"] e by simp
qed

lemma traceSignalFlow_buildSignalFlows [simp]:
  "traceSignalFlow (buildSignalFlows g) = traceSignalFlow g"
  by (intro ext traceSignalFlow_nodes_cong buildSignalFlows_flows)

lemma buildGraph_signalFlows:
  "signalFlows (buildGraph ms is) = flows_of (buildGraph ms is)"
proof -
  let ?g = "fold (add_instance ms) is (fold add_node ms empty_graph)"
  have "flows_of (buildSignalFlows ?g) = flows_of ?g"
    by (simp add: flows_of_def buildSignalFlows_flows)
  then show ?thesis
    by (simp add: buildGraph_def buildSignalFlows_flows empty_graph_def)
qed

lemma set_map_filter_conv:
  "set (List.map_filter f xs) = {y. \<exists>x\<in>set xs. f x = Some y}"
  by (induction xs) (auto split: option.splits)

lemma in_flows_of_iff:
  "f \<in> set (flows_of g) \<longleftrightarrow>
     (\<exists>p node inst conn. (p, node) \<in> set (nodes g) \<and> inst \<in> set (instances node) \<and>
        conn \<in> set (connections inst) \<and> traceSignalFlow g p inst conn = Some f)"
proof -
  have "f \<in> set (flows_of g) \<longleftrightarrow>
      (\<exists>x\<in>set (nodes g). \<exists>inst\<in>set (instances (snd x)). \<exists>conn\<in>set (connections inst).
         traceSignalFlow g (fst x) inst conn = Some f)"
    by (simp add: flows_of_def set_map_filter_conv case_prod_beta)
  also have "\<dots> \<longleftrightarrow> (\<exists>p node inst conn. (p, node) \<in> set (nodes g) \<and> inst \<in> set (instances node) \<and>
        conn \<in> set (connections inst) \<and> traceSignalFlow g p inst conn = Some f)"
    by (simp add: Bex_def)
  finally show ?thesis .
qed

lemma attached_flow:
  assumes "inst \<in> set insts" and "findModuleByFile (inst_file inst) modules = Some pm"
    and "conn \<in> set (connections inst)"
    and "traceSignalFlow (buildGraph modules insts) (mi_name pm) inst conn = Some f"
  shows "f \<in> set (signalFlows (buildGraph modules insts))"
proof -
  let ?g = "buildGraph modules insts"
  have k: "mi_name pm \<in> mi_name ` set modules"
    using findModuleByFile_SomeD [OF assms(2)] by blast
  then obtain node where n: "map_of (nodes ?g) (mi_name pm) = Some node"
    using buildGraph_has_node [of modules insts "mi_name pm"] by auto
  have "inst \<in> set (node_insts ?g (mi_name pm))"
    using assms(1,2) by (simp add: buildGraph_node_insts [OF k])
  then have "inst \<in> set (instances node)"
    using n by (simp add: node_insts_def)
  moreover have "(mi_name pm, node) \<in> set (nodes ?g)"
    using n by (rule map_of_SomeD)
  ultimately show ?thesis
    using assms(3,4) unfolding buildGraph_signalFlows in_flows_of_iff by (intro exI conjI)
qed


lemma traceSignalFlow_Some:
  assumes "map_of (nodes g) (moduleType inst) = Some child"
    and "\<exists>p\<in>set (node_ports child). port_name p = portName conn"
  shows "traceSignalFlow g parent inst conn =
     Some \<lparr>flow_from =
             \<lparr>ref_module = (if direction conn = Input then parent else moduleType inst),
              ref_port = (if direction conn = Input then signalName conn else portName conn)\<rparr>,
           flow_to =
             \<lparr>ref_module = (if direction conn = Input then moduleType inst else parent),
              ref_port = (if direction conn = Input then portName conn else signalName conn)\<rparr>,
           signal = signalName conn,
           path = [parent, moduleType inst]\<rparr>"
proof -
  obtain q where "List.find (\<lambda>p. port_name p = portName conn) (node_ports child) = Some q"
    using assms(2) by (cases "List.find (\<lambda>p. port_name p = portName conn) (node_ports child)")
      (auto simp: find_None_iff)
  then show ?thesis
    using assms(1) by (simp add: traceSignalFlow_def)
qed

lemma traceSignalFlow_SomeD:
  "traceSignalFlow g parent inst conn = Some f \<Longrightarrow>
     map_of (nodes g) (moduleType inst) \<noteq> None \<and> path f = [parent, moduleType inst] \<and>
     signal f = signalName conn"
  by (auto simp: traceSignalFlow_def split: option.splits)

definition ex_alu :: ModuleInfo where
  "ex_alu = \<lparr>mi_name = ''alu'', filePath = ''/rtl/alu.v'', mi_startLine = 0, mi_endLine = 9,
     mi_ports = [\<lparr>port_name = ''a'', port_direction = ''input'', port_type = ''wire''\<rparr>,
                 \<lparr>port_name = ''b'', port_direction = ''input'', port_type = ''wire''\<rparr>,
                 \<lparr>port_name = ''result'', port_direction = ''output'', port_type = ''wire''\<rparr>]\<rparr>"

definition ex_cpu_core :: ModuleInfo where
  "ex_cpu_core = \<lparr>mi_name = ''cpu_core'', filePath = ''/rtl/cpu_core.v'', mi_startLine = 0,
     mi_endLine = 20, mi_ports = []\<rparr>"

definition ex_conn_a :: ConnectionInfo where
  "ex_conn_a = \<lparr>portName = ''a'', signalName = ''op_a'', direction = Input\<rparr>"

definition ex_conn_result :: ConnectionInfo where
  "ex_conn_result = \<lparr>portName = ''result'', signalName = ''alu_result'', direction = Output\<rparr>"

definition ex_u_alu :: InstanceInfo where
  "ex_u_alu = \<lparr>inst_name = ''u_alu'', moduleType = ''alu'',
     connections = [ex_conn_a, ex_conn_result], inst_file = ''/rtl/cpu_core.v'', inst_line = 5\<rparr>"

definition ex_u_ext :: InstanceInfo where
  "ex_u_ext = \<lparr>inst_name = ''u_ext'', moduleType = ''vendor_ram'',
     connections = [\<lparr>portName = ''q'', signalName = ''ram_q'', direction = Output\<rparr>],
     inst_file = ''/rtl/cpu_core.v'', inst_line = 9\<rparr>"

definition ex_graph :: ModuleGraph where
  "ex_graph = buildGraph [ex_alu, ex_cpu_core] [ex_u_alu, ex_u_ext]"

lemmas ex_defs = ex_alu_def ex_cpu_core_def ex_conn_a_def ex_conn_result_def ex_u_alu_def
  ex_u_ext_def

lemmas graph_eval = buildGraph_def buildSignalFlows_def add_instance_def add_node_def
  attach_instance_def addEdge_def flow_step_def traceSignalFlow_def findModuleByFile_def
  empty_graph_def map_set_add_def get_or_empty_def set_add_def

lemma ex_graph_nodes_alu:
  "map_of (nodes ex_graph) ''alu'' = Some \<lparr>node_id = ''alu'', node_name = ''alu'',
     node_file = ''/rtl/alu.v'', node_ports = mi_ports ex_alu, node_parameters = [],
     instances = []\<rparr>"
  by (simp add: ex_graph_def ex_defs graph_eval)


text \<open>
  C2. An instance of the input whose file resolves to a parent module is attached to
  that module's node.  For each of its connections whose instantiated module type is a
  node of the graph with a port of the connection's port name: direction \<open>Input\<close> records
  the flow from (parent, signal name) to (child type, port name), direction \<open>Output\<close> the
  flow from (child type, port name) to (parent, signal name), each with the connection's
  signal name and the path [parent, child type].  When the child type is not a node the
  trace yields no flow, and every recorded flow stems from an attached connection whose
  child type is a node.
\<close>

theorem buildGraph_signal_flow_direction:
  assumes "inst \<in> set insts"
    and "findModuleByFile (inst_file inst) modules = Some pm"
    and "conn \<in> set (connections inst)"
  shows
    "(map_of (nodes (buildGraph modules insts)) (moduleType inst) = Some child \<and>
      (\<exists>p\<in>set (node_ports child). port_name p = portName conn) \<longrightarrow>
        (direction conn = Input \<longrightarrow>
           \<lparr>flow_from = \<lparr>ref_module = mi_name pm, ref_port = signalName conn\<rparr>,
            flow_to = \<lparr>ref_module = moduleType inst, ref_port = portName conn\<rparr>,
            signal = signalName conn, path = [mi_name pm, moduleType inst]\<rparr>
           \<in> set (signalFlows (buildGraph modules insts))) \<and>
        (direction conn = Output \<longrightarrow>
           \<lparr>flow_from = \<lparr>ref_module = moduleType inst, ref_port = portName conn\<rparr>,
            flow_to = \<lparr>ref_module = mi_name pm, ref_port = signalName conn\<rparr>,
            signal = signalName conn, path = [mi_name pm, moduleType inst]\<rparr>
           \<in> set (signalFlows (buildGraph modules insts)))) \<and>
     (map_of (nodes (buildGraph modules insts)) (moduleType inst) = None \<longrightarrow>
        traceSignalFlow (buildGraph modules insts) (mi_name pm) inst conn = None) \<and>
     (\<forall>f\<in>set (signalFlows (buildGraph modules insts)).
        \<exists>parent node i c. (parent, node) \<in> set (nodes (buildGraph modules insts)) \<and>
          i \<in> set (instances node) \<and> c \<in> set (connections i) \<and>
          map_of (nodes (buildGraph modules insts)) (moduleType i) \<noteq> None \<and>
          path f = [parent, moduleType i] \<and> signal f = signalName c)"
proof (intro conjI impI ballI)
  let ?g = "buildGraph modules insts"
  {
    assume "map_of (nodes ?g) (moduleType inst) = Some child \<and>
      (\<exists>p\<in>set (node_ports child). port_name p = portName conn)"
    then have t: "traceSignalFlow ?g (mi_name pm) inst conn =
       Some \<lparr>flow_from =
             \<lparr>ref_module = (if direction conn = Input then mi_name pm else moduleType inst),
              ref_port = (if direction conn = Input then signalName conn else portName conn)\<rparr>,
           flow_to =
             \<lparr>ref_module = (if direction conn = Input then moduleType inst else mi_name pm),
              ref_port = (if direction conn = Input then portName conn else signalName conn)\<rparr>,
           signal = signalName conn,
           path = [mi_name pm, moduleType inst]\<rparr>"
      by (intro traceSignalFlow_Some) auto
    {
      assume "direction conn = Input"
      with attached_flow [OF assms t]
      show "\<lparr>flow_from = \<lparr>ref_module = mi_name pm, ref_port = signalName conn\<rparr>,
            flow_to = \<lparr>ref_module = moduleType inst, ref_port = portName conn\<rparr>,
            signal = signalName conn, path = [mi_name pm, moduleType inst]\<rparr>
           \<in> set (signalFlows ?g)"
        by simp
    }
    {
      assume "direction conn = Output"
      with attached_flow [OF assms t]
      show "\<lparr>flow_from = \<lparr>ref_module = moduleType inst, ref_port = portName conn\<rparr>,
            flow_to = \<lparr>ref_module = mi_name pm, ref_port = signalName conn\<rparr>,
            signal = signalName conn, path = [mi_name pm, moduleType inst]\<rparr>
           \<in> set (signalFlows ?g)"
        by simp
    }
  }
  {
    assume "map_of (nodes ?g) (moduleType inst) = None"
    then show "traceSignalFlow ?g (mi_name pm) inst conn = None"
      by (simp add: traceSignalFlow_def)
  }
  {
    fix f
    assume "f \<in> set (signalFlows ?g)"
    then obtain p node i c where
      "(p, node) \<in> set (nodes ?g)" "i \<in> set (instances node)" "c \<in> set (connections i)"
      "traceSignalFlow ?g p i c = Some f"
      unfolding buildGraph_signalFlows in_flows_of_iff by blast
    then show "\<exists>parent node i c. (parent, node) \<in> set (nodes ?g) \<and>
          i \<in> set (instances node) \<and> c \<in> set (connections i) \<and>
          map_of (nodes ?g) (moduleType i) \<noteq> None \<and>
          path f = [parent, moduleType i] \<and> signal f = signalName c"
      using traceSignalFlow_SomeD by blast
  }
qed

theorem buildGraph_signal_flow_direction_witness:
  "\<lparr>flow_from = \<lparr>ref_module = ''cpu_core'', ref_port = ''op_a''\<rparr>,
    flow_to = \<lparr>ref_module = ''alu'', ref_port = ''a''\<rparr>,
    signal = ''op_a'', path = [''cpu_core'', ''alu'']\<rparr> \<in> set (signalFlows ex_graph) \<and>
   \<lparr>flow_from = \<lparr>ref_module = ''alu'', ref_port = ''result''\<rparr>,
    flow_to = \<lparr>ref_module = ''cpu_core'', ref_port = ''alu_result''\<rparr>,
    signal = ''alu_result'', path = [''cpu_core'', ''alu'']\<rparr> \<in> set (signalFlows ex_graph) \<and>
   traceSignalFlow ex_graph ''cpu_core'' ex_u_ext (hd (connections ex_u_ext)) = None \<and>
   length (signalFlows ex_graph) = 2"
proof -
  have i: "ex_u_alu \<in> set [ex_u_alu, ex_u_ext]" "ex_u_ext \<in> set [ex_u_alu, ex_u_ext]"
    by simp_all
  have f: "findModuleByFile (inst_file ex_u_alu) [ex_alu, ex_cpu_core] = Some ex_cpu_core"
    "findModuleByFile (inst_file ex_u_ext) [ex_alu, ex_cpu_core] = Some ex_cpu_core"
    by (simp_all add: findModuleByFile_def ex_defs)
  have c: "ex_conn_a \<in> set (connections ex_u_alu)" "ex_conn_result \<in> set (connections ex_u_alu)"
    "hd (connections ex_u_ext) \<in> set (connections ex_u_ext)"
    by (simp_all add: ex_u_alu_def ex_u_ext_def)
  have n: "map_of (nodes ex_graph) ''vendor_ram'' = None"
    by (simp add: ex_graph_def ex_defs graph_eval)
  have l: "length (signalFlows ex_graph) = 2"
    by (simp add: ex_graph_def ex_defs graph_eval)
  have k: "map_of (nodes ex_graph) ''alu'' = Some (the (map_of (nodes ex_graph) ''alu''))"
    "\<exists>p\<in>set (node_ports (the (map_of (nodes ex_graph) ''alu''))). port_name p = portName ex_conn_a"
    "\<exists>p\<in>set (node_ports (the (map_of (nodes ex_graph) ''alu''))). port_name p = portName ex_conn_result"
    by (simp_all add: ex_graph_nodes_alu ex_defs)
  have d: "direction ex_conn_a = Input" "direction ex_conn_result = Output"
    by (simp_all add: ex_defs)
  have "\<lparr>flow_from = \<lparr>ref_module = mi_name ex_cpu_core, ref_port = signalName ex_conn_a\<rparr>,
      flow_to = \<lparr>ref_module = moduleType ex_u_alu, ref_port = portName ex_conn_a\<rparr>,
      signal = signalName ex_conn_a, path = [mi_name ex_cpu_core, moduleType ex_u_alu]\<rparr>
      \<in> set (signalFlows ex_graph)"
    using buildGraph_signal_flow_direction [OF i(1) f(1) c(1),
        of "the (map_of (nodes ex_graph) ''alu'')", folded ex_graph_def] k d
    by (simp add: ex_u_alu_def)
  moreover have "\<lparr>flow_from = \<lparr>ref_module = moduleType ex_u_alu, ref_port = portName ex_conn_result\<rparr>,
      flow_to = \<lparr>ref_module = mi_name ex_cpu_core, ref_port = signalName ex_conn_result\<rparr>,
      signal = signalName ex_conn_result, path = [mi_name ex_cpu_core, moduleType ex_u_alu]\<rparr>
      \<in> set (signalFlows ex_graph)"
    using buildGraph_signal_flow_direction [OF i(1) f(1) c(2),
        of "the (map_of (nodes ex_graph) ''alu'')", folded ex_graph_def] k d
    by (simp add: ex_u_alu_def)
  moreover have "traceSignalFlow ex_graph (mi_name ex_cpu_core) ex_u_ext (hd (connections ex_u_ext)) = None"
    using buildGraph_signal_flow_direction [OF i(2) f(2) c(3), of undefined, folded ex_graph_def] n
    by (simp add: ex_u_ext_def)
  ultimately show ?thesis
    using l by (simp add: ex_defs)
qed



section \<open>Signal impact analysis\<close>

record ImpactAnalysis =
  sources :: "PortRef list"
  sinks :: "PortRef list"
  affectedModules :: "string list"

definition impact_step :: "string \<Rightarrow> SignalFlow \<Rightarrow> ImpactAnalysis \<Rightarrow> ImpactAnalysis" where
  "impact_step signalName' flow acc =
     (if signal flow = signalName' then
        \<lparr>sources = sources acc @ [flow_from flow],
         sinks = sinks acc @ [flow_to flow],
         affectedModules =
           set_add (ref_module (flow_to flow))
             (set_add (ref_module (flow_from flow)) (affectedModules acc))\<rparr>
      else acc)"

definition getSignalImpactAnalysis :: "ModuleGraph \<Rightarrow> string \<Rightarrow> ImpactAnalysis" where
  "getSignalImpactAnalysis g signalName' =
     fold (impact_step signalName') (signalFlows g)
       \<lparr>sources = [], sinks = [], affectedModules = []\<rparr>"

lemma distinct_set_add [simp]: "distinct (set_add x xs) = distinct xs"
  by (simp add: set_add_def)

lemma fold_impact_step:
  "sources (fold (impact_step s) fs acc) = sources acc @ map flow_from (filter (\<lambda>f. signal f = s) fs) \<and>
   sinks (fold (impact_step s) fs acc) = sinks acc @ map flow_to (filter (\<lambda>f. signal f = s) fs) \<and>
   set (affectedModules (fold (impact_step s) fs acc)) =
     set (affectedModules acc) \<union> (ref_module \<circ> flow_from) ` {f \<in> set fs. signal f = s}
       \<union> (ref_module \<circ> flow_to) ` {f \<in> set fs. signal f = s} \<and>
   distinct (affectedModules (fold (impact_step s) fs acc)) = distinct (affectedModules acc)"
proof (induction fs arbitrary: acc)
  case Nil
  show ?case by simp
next
  case (Cons f fs)
  show ?case
    using Cons [of "impact_step s f acc"]
    by (auto simp: impact_step_def)
qed

definition cx_top :: ModuleInfo where
  "cx_top = \<lparr>mi_name = ''top'', filePath = ''/rtl/top.v'', mi_startLine = 0, mi_endLine = 30,
     mi_ports = []\<rparr>"

definition cx_leaf :: "string \<Rightarrow> string \<Rightarrow> ModuleInfo" where
  "cx_leaf n f = \<lparr>mi_name = n, filePath = f, mi_startLine = 0, mi_endLine = 5,
     mi_ports = [\<lparr>port_name = ''clk'', port_direction = ''input'', port_type = ''wire''\<rparr>]\<rparr>"

definition cx_inst :: "string \<Rightarrow> string \<Rightarrow> InstanceInfo" where
  "cx_inst n t = \<lparr>inst_name = n, moduleType = t,
     connections = [\<lparr>portName = ''clk'', signalName = ''sys_clk'', direction = Input\<rparr>],
     inst_file = ''/rtl/top.v'', inst_line = 3\<rparr>"

definition cx_graph :: ModuleGraph where
  "cx_graph = buildGraph [cx_top, cx_leaf ''uart'' ''/rtl/uart.v'', cx_leaf ''timer'' ''/rtl/timer.v'']
     [cx_inst ''u_uart'' ''uart'', cx_inst ''u_timer'' ''timer'']"

lemmas cx_defs = cx_graph_def cx_top_def cx_leaf_def cx_inst_def

lemma cx_graph_flows:
  "signalFlows cx_graph =
     [\<lparr>flow_from = \<lparr>ref_module = ''top'', ref_port = ''sys_clk''\<rparr>,
       flow_to = \<lparr>ref_module = ''uart'', ref_port = ''clk''\<rparr>,
       signal = ''sys_clk'', path = [''top'', ''uart'']\<rparr>,
      \<lparr>flow_from = \<lparr>ref_module = ''top'', ref_port = ''sys_clk''\<rparr>,
       flow_to = \<lparr>ref_module = ''timer'', ref_port = ''clk''\<rparr>,
       signal = ''sys_clk'', path = [''top'', ''timer'']\<rparr>]"
  by (simp add: cx_defs graph_eval)

text \<open>
  C8 as stated fails: \<open>top\<close> feeds its signal \<open>sys_clk\<close> to the input \<open>clk\<close> of two
  instances, which gives two flows with the same source pair; \<open>sources\<close> lists the pair
  twice.
\<close>

theorem impact_sources_not_distinct:
  "sources (getSignalImpactAnalysis cx_graph ''sys_clk'') =
     [\<lparr>ref_module = ''top'', ref_port = ''sys_clk''\<rparr>, \<lparr>ref_module = ''top'', ref_port = ''sys_clk''\<rparr>] \<and>
   \<not> distinct (sources (getSignalImpactAnalysis cx_graph ''sys_clk''))"
  by (simp add: getSignalImpactAnalysis_def cx_graph_flows impact_step_def)


lemma impact_of_flow:
  assumes "f \<in> set (signalFlows g)" and "signal f = s"
  shows "flow_from f \<in> set (sources (getSignalImpactAnalysis g s)) \<and>
         flow_to f \<in> set (sinks (getSignalImpactAnalysis g s)) \<and>
         ref_module (flow_from f) \<in> set (affectedModules (getSignalImpactAnalysis g s)) \<and>
         ref_module (flow_to f) \<in> set (affectedModules (getSignalImpactAnalysis g s))"
  using assms fold_impact_step [of s "signalFlows g" "\<lparr>sources = [], sinks = [], affectedModules = []\<rparr>"]
  by (auto simp: getSignalImpactAnalysis_def)

text \<open>
  C8 (amended). For every graph and signal name, \<open>sources\<close> and \<open>sinks\<close> list the from
  and to pairs of exactly the flows whose signal is that name, one entry per flow in flow
  order (a pair shared by several flows is repeated); \<open>affectedModules\<close> is duplicate-free
  and holds exactly the modules of those flows.  In particular, in a graph from
  \<open>buildGraph\<close>, a child module connected at an output port appears among the sources
  of the connection's signal, one connected at an input port among its sinks, and child
  and parent both among the affected modules.
\<close>

theorem getSignalImpactAnalysis_flows:
  "sources (getSignalImpactAnalysis g s) = map flow_from (filter (\<lambda>f. signal f = s) (signalFlows g)) \<and>
   sinks (getSignalImpactAnalysis g s) = map flow_to (filter (\<lambda>f. signal f = s) (signalFlows g)) \<and>
   distinct (affectedModules (getSignalImpactAnalysis g s)) \<and>
   set (affectedModules (getSignalImpactAnalysis g s)) =
     (ref_module \<circ> flow_from) ` {f \<in> set (signalFlows g). signal f = s} \<union>
     (ref_module \<circ> flow_to) ` {f \<in> set (signalFlows g). signal f = s} \<and>
   (inst \<in> set insts \<and> findModuleByFile (inst_file inst) modules = Some pm \<and>
    conn \<in> set (connections inst) \<and>
    map_of (nodes (buildGraph modules insts)) (moduleType inst) = Some child \<and>
    (\<exists>p\<in>set (node_ports child). port_name p = portName conn) \<longrightarrow>
      (direction conn = Output \<longrightarrow>
         \<lparr>ref_module = moduleType inst, ref_port = portName conn\<rparr>
           \<in> set (sources (getSignalImpactAnalysis (buildGraph modules insts) (signalName conn)))) \<and>
      (direction conn = Input \<longrightarrow>
         \<lparr>ref_module = moduleType inst, ref_port = portName conn\<rparr>
           \<in> set (sinks (getSignalImpactAnalysis (buildGraph modules insts) (signalName conn)))) \<and>
      moduleType inst
        \<in> set (affectedModules (getSignalImpactAnalysis (buildGraph modules insts) (signalName conn))) \<and>
      mi_name pm
        \<in> set (affectedModules (getSignalImpactAnalysis (buildGraph modules insts) (signalName conn))))"
proof -
  let ?r = "getSignalImpactAnalysis g s"
  note fold = fold_impact_step [of s "signalFlows g" "\<lparr>sources = [], sinks = [], affectedModules = []\<rparr>"]
  have 1: "sources ?r = map flow_from (filter (\<lambda>f. signal f = s) (signalFlows g))"
    using fold by (simp add: getSignalImpactAnalysis_def)
  have 2: "sinks ?r = map flow_to (filter (\<lambda>f. signal f = s) (signalFlows g))"
    using fold by (simp add: getSignalImpactAnalysis_def)
  have 3: "distinct (affectedModules ?r)"
    using fold by (simp add: getSignalImpactAnalysis_def)
  have 4: "set (affectedModules ?r) =
     (ref_module \<circ> flow_from) ` {f \<in> set (signalFlows g). signal f = s} \<union>
     (ref_module \<circ> flow_to) ` {f \<in> set (signalFlows g). signal f = s}"
    using fold by (simp add: getSignalImpactAnalysis_def)
  have 5: "(direction conn = Output \<longrightarrow>
         \<lparr>ref_module = moduleType inst, ref_port = portName conn\<rparr>
           \<in> set (sources (getSignalImpactAnalysis (buildGraph modules insts) (signalName conn)))) \<and>
      (direction conn = Input \<longrightarrow>
         \<lparr>ref_module = moduleType inst, ref_port = portName conn\<rparr>
           \<in> set (sinks (getSignalImpactAnalysis (buildGraph modules insts) (signalName conn)))) \<and>
      moduleType inst
        \<in> set (affectedModules (getSignalImpactAnalysis (buildGraph modules insts) (signalName conn))) \<and>
      mi_name pm
        \<in> set (affectedModules (getSignalImpactAnalysis (buildGraph modules insts) (signalName conn)))"
    if a: "inst \<in> set insts" "findModuleByFile (inst_file inst) modules = Some pm"
      "conn \<in> set (connections inst)"
      "map_of (nodes (buildGraph modules insts)) (moduleType inst) = Some child"
      "\<exists>p\<in>set (node_ports child). port_name p = portName conn"
  proof -
    let ?f = "\<lparr>flow_from =
             \<lparr>ref_module = (if direction conn = Input then mi_name pm else moduleType inst),
              ref_port = (if direction conn = Input then signalName conn else portName conn)\<rparr>,
           flow_to =
             \<lparr>ref_module = (if direction conn = Input then moduleType inst else mi_name pm),
              ref_port = (if direction conn = Input then portName conn else signalName conn)\<rparr>,
           signal = signalName conn,
           path = [mi_name pm, moduleType inst]\<rparr>"
    have "traceSignalFlow (buildGraph modules insts) (mi_name pm) inst conn = Some ?f"
      by (rule traceSignalFlow_Some [OF a(4,5)])
    then have "?f \<in> set (signalFlows (buildGraph modules insts))"
      by (rule attached_flow [OF a(1,2,3)])
    from impact_of_flow [OF this, of "signalName conn"] show ?thesis
      by (cases "direction conn") (simp_all split: if_splits)
  qed
  from 1 2 3 4 5 show ?thesis by blast
qed

theorem getSignalImpactAnalysis_flows_witness:
  "sources (getSignalImpactAnalysis ex_graph ''alu_result'') = [\<lparr>ref_module = ''alu'', ref_port = ''result''\<rparr>] \<and>
   sinks (getSignalImpactAnalysis ex_graph ''op_a'') = [\<lparr>ref_module = ''alu'', ref_port = ''a''\<rparr>] \<and>
   \<lparr>ref_module = ''alu'', ref_port = ''result''\<rparr> \<in> set (sources (getSignalImpactAnalysis ex_graph ''alu_result'')) \<and>
   \<lparr>ref_module = ''alu'', ref_port = ''a''\<rparr> \<in> set (sinks (getSignalImpactAnalysis ex_graph ''op_a'')) \<and>
   ''alu'' \<in> set (affectedModules (getSignalImpactAnalysis ex_graph ''alu_result'')) \<and>
   ''cpu_core'' \<in> set (affectedModules (getSignalImpactAnalysis ex_graph ''alu_result''))"
proof -
  have fl: "signalFlows ex_graph =
     [\<lparr>flow_from = \<lparr>ref_module = ''cpu_core'', ref_port = ''op_a''\<rparr>,
       flow_to = \<lparr>ref_module = ''alu'', ref_port = ''a''\<rparr>,
       signal = ''op_a'', path = [''cpu_core'', ''alu'']\<rparr>,
      \<lparr>flow_from = \<lparr>ref_module = ''alu'', ref_port = ''result''\<rparr>,
       flow_to = \<lparr>ref_module = ''cpu_core'', ref_port = ''alu_result''\<rparr>,
       signal = ''alu_result'', path = [''cpu_core'', ''alu'']\<rparr>]"
    by (simp add: ex_graph_def ex_defs graph_eval)
  have h: "ex_u_alu \<in> set [ex_u_alu, ex_u_ext]"
    "findModuleByFile (inst_file ex_u_alu) [ex_alu, ex_cpu_core] = Some ex_cpu_core"
    "ex_conn_a \<in> set (connections ex_u_alu)" "ex_conn_result \<in> set (connections ex_u_alu)"
    "map_of (nodes ex_graph) (moduleType ex_u_alu) = Some (the (map_of (nodes ex_graph) ''alu''))"
    "\<exists>p\<in>set (node_ports (the (map_of (nodes ex_graph) ''alu''))). port_name p = portName ex_conn_a"
    "\<exists>p\<in>set (node_ports (the (map_of (nodes ex_graph) ''alu''))). port_name p = portName ex_conn_result"
    "direction ex_conn_a = Input" "direction ex_conn_result = Output"
    by (simp_all add: ex_graph_nodes_alu findModuleByFile_def ex_defs)
  note t = getSignalImpactAnalysis_flows [of ex_graph _ _ "[ex_u_alu, ex_u_ext]" "[ex_alu, ex_cpu_core]"
      ex_cpu_core _ "the (map_of (nodes ex_graph) ''alu'')", folded ex_graph_def]
  have "sources (getSignalImpactAnalysis ex_graph ''alu_result'') =
      [\<lparr>ref_module = ''alu'', ref_port = ''result''\<rparr>]"
    using t [of "''alu_result''" ex_u_alu ex_conn_a] by (simp add: fl)
  moreover have "sinks (getSignalImpactAnalysis ex_graph ''op_a'') =
      [\<lparr>ref_module = ''alu'', ref_port = ''a''\<rparr>]"
    using t [of "''op_a''" ex_u_alu ex_conn_a] by (simp add: fl)
  moreover have "\<lparr>ref_module = moduleType ex_u_alu, ref_port = portName ex_conn_result\<rparr>
      \<in> set (sources (getSignalImpactAnalysis ex_graph (signalName ex_conn_result))) \<and>
    moduleType ex_u_alu \<in> set (affectedModules (getSignalImpactAnalysis ex_graph (signalName ex_conn_result))) \<and>
    mi_name ex_cpu_core \<in> set (affectedModules (getSignalImpactAnalysis ex_graph (signalName ex_conn_result)))"
    using t [of "''alu_result''" ex_u_alu ex_conn_result] h by simp
  moreover have "\<lparr>ref_module = moduleType ex_u_alu, ref_port = portName ex_conn_a\<rparr>
      \<in> set (sinks (getSignalImpactAnalysis ex_graph (signalName ex_conn_a)))"
    using t [of "''op_a''" ex_u_alu ex_conn_a] h by simp
  ultimately show ?thesis
    by (simp add: ex_defs)
qed



section \<open>Search engine: symbol score (search.ts)\<close>

text \<open>
  The substitution cost \<^verbatim>\<open>a[i - 1] === b[j - 1] ? 0 : 1\<close>, and the Levenshtein distance as
  the textbook recurrence on the first characters of the two strings.
\<close>

definition subst_cost :: "'a \<Rightarrow> 'a \<Rightarrow> nat" where
  "subst_cost x y = (if x = y then 0 else 1)"

fun lev :: "'a list \<Rightarrow> 'a list \<Rightarrow> nat" where
  "lev [] ys = length ys"
| "lev xs [] = length xs"
| "lev (x # xs) (y # ys) =
     min (min (lev xs (y # ys) + 1) (lev (x # xs) ys + 1)) (lev xs ys + subst_cost x y)"

lemma lev_Nil2 [simp]: "lev xs [] = length xs"
  by (cases xs) simp_all

lemma min_regroup:
  fixes a :: nat
  shows
  "min (min (min (min (a + 1) (b + 1)) (c + k) + 1) (min (min (d + 1) (e + 1)) (f + k) + 1))
       (min (min (g + 1) (h + 1)) (i + k) + k0) =
   min (min (min (min (a + 1) (d + 1)) (g + k0) + 1) (min (min (b + 1) (e + 1)) (h + k0) + 1))
       (min (min (c + 1) (f + 1)) (i + k0) + k)"
  by (intro antisym; simp del: min_Suc_Suc
       add: min_Suc_Suc [symmetric] min_add_distrib_left min_add_distrib_right min_le_iff_disj)

lemma lev_snoc_step:
  assumes "lev (xs @ [x]) ((y0 # ys) @ [y]) =
     min (min (lev xs ((y0 # ys) @ [y]) + 1) (lev (xs @ [x]) (y0 # ys) + 1))
       (lev xs (y0 # ys) + subst_cost x y)"
  and "lev ((x0 # xs) @ [x]) (ys @ [y]) =
     min (min (lev (x0 # xs) (ys @ [y]) + 1) (lev ((x0 # xs) @ [x]) ys + 1))
       (lev (x0 # xs) ys + subst_cost x y)"
  and "lev (xs @ [x]) (ys @ [y]) =
     min (min (lev xs (ys @ [y]) + 1) (lev (xs @ [x]) ys + 1))
       (lev xs ys + subst_cost x y)"
  shows "lev ((x0 # xs) @ [x]) ((y0 # ys) @ [y]) =
     min (min (lev (x0 # xs) ((y0 # ys) @ [y]) + 1) (lev ((x0 # xs) @ [x]) (y0 # ys) + 1))
       (lev (x0 # xs) (y0 # ys) + subst_cost x y)"
proof -
  have "lev ((x0 # xs) @ [x]) ((y0 # ys) @ [y]) =
      min (min (lev (xs @ [x]) ((y0 # ys) @ [y]) + 1) (lev ((x0 # xs) @ [x]) (ys @ [y]) + 1))
        (lev (xs @ [x]) (ys @ [y]) + subst_cost x0 y0)"
    by (simp only: append_Cons lev.simps)
  also have "\<dots> =
      min (min (min (min (lev xs ((y0 # ys) @ [y]) + 1) (lev (xs @ [x]) (y0 # ys) + 1))
                  (lev xs (y0 # ys) + subst_cost x y) + 1)
               (min (min (lev (x0 # xs) (ys @ [y]) + 1) (lev ((x0 # xs) @ [x]) ys + 1))
                  (lev (x0 # xs) ys + subst_cost x y) + 1))
          (min (min (lev xs (ys @ [y]) + 1) (lev (xs @ [x]) ys + 1))
                  (lev xs ys + subst_cost x y) + subst_cost x0 y0)"
    by (simp only: assms)
  also have "\<dots> =
      min (min (min (min (lev xs ((y0 # ys) @ [y]) + 1) (lev (x0 # xs) (ys @ [y]) + 1))
                  (lev xs (ys @ [y]) + subst_cost x0 y0) + 1)
               (min (min (lev (xs @ [x]) (y0 # ys) + 1) (lev ((x0 # xs) @ [x]) ys + 1))
                  (lev (xs @ [x]) ys + subst_cost x0 y0) + 1))
          (min (min (lev xs (y0 # ys) + 1) (lev (x0 # xs) ys + 1))
                  (lev xs ys + subst_cost x0 y0) + subst_cost x y)"
    by (rule min_regroup)
  also have "\<dots> = min (min (lev (x0 # xs) ((y0 # ys) @ [y]) + 1) (lev ((x0 # xs) @ [x]) (y0 # ys) + 1))
       (lev (x0 # xs) (y0 # ys) + subst_cost x y)"
    by (simp only: append_Cons lev.simps)
  finally show ?thesis .
qed

lemma lev_single_snoc:
  "lev [x] (ys @ [y]) =
     min (min (lev [] (ys @ [y]) + 1) (lev [x] ys + 1)) (lev [] ys + subst_cost x y)"
proof (induction ys)
  case Nil
  show ?case by simp
next
  case (Cons y0 ys)
  have "lev [x] ((y0 # ys) @ [y]) =
      min (min (length ys + 1 + 1 + 1) (lev [x] (ys @ [y]) + 1)) (length ys + 1 + subst_cost x y0)"
    by simp
  also have "\<dots> = min (min (length ys + 1 + 1 + 1)
        (min (min (length ys + 1 + 1) (lev [x] ys + 1)) (length ys + subst_cost x y) + 1))
      (length ys + 1 + subst_cost x y0)"
    using Cons by simp
  also have "\<dots> = min (min (length ys + 1 + 1 + 1)
        (min (min (length ys + 1 + 1) (lev [x] ys + 1)) (length ys + subst_cost x y0) + 1))
      (length ys + 1 + subst_cost x y)"
    by (intro antisym; simp del: min_Suc_Suc
       add: min_Suc_Suc [symmetric] min_add_distrib_left min_add_distrib_right min_le_iff_disj)
  also have "\<dots> = min (min (lev [] ((y0 # ys) @ [y]) + 1) (lev [x] (y0 # ys) + 1))
       (lev [] (y0 # ys) + subst_cost x y)"
    by simp 
  finally show ?case .
qed


lemma subst_cost_sym: "subst_cost x y = subst_cost y x"
  by (auto simp: subst_cost_def)

lemma lev_sym: "lev xs ys = lev ys xs"
proof (induction xs ys rule: lev.induct)
  case (3 x xs y ys)
  then show ?case
    by (simp add: subst_cost_sym [of x y] min.commute min.left_commute min.assoc)
qed simp_all

lemma lev_snoc:
  "lev (xs @ [x]) (ys @ [y]) =
     min (min (lev xs (ys @ [y]) + 1) (lev (xs @ [x]) ys + 1)) (lev xs ys + subst_cost x y)"
proof (induction xs ys rule: lev.induct)
  case (1 ys)
  show ?case using lev_single_snoc [of x ys y] by simp
next
  case (2 x0 xs)
  have "lev ((x0 # xs) @ [x]) ([] @ [y]) = lev [y] ((x0 # xs) @ [x])"
    by (simp add: lev_sym [of _ "[y]"])
  also have "\<dots> = min (min (lev [] ((x0 # xs) @ [x]) + 1) (lev [y] (x0 # xs) + 1))
      (lev [] (x0 # xs) + subst_cost y x)"
    by (rule lev_single_snoc)
  also have "\<dots> = min (min (lev (x0 # xs) ([] @ [y]) + 1) (lev ((x0 # xs) @ [x]) [] + 1))
       (lev (x0 # xs) [] + subst_cost x y)"
    by (simp add: lev_sym [of "[y]"] subst_cost_sym [of y x] subst_cost_sym [of y x0] min.commute)
  finally show ?case .
next
  case (3 x0 xs y0 ys)
  then show ?case by (intro lev_snoc_step)
qed

text \<open>The one-row dynamic-programming loop of \<^verbatim>\<open>levenshteinDistance\<close>.\<close>

definition cell :: "string \<Rightarrow> string \<Rightarrow> nat \<Rightarrow> nat \<Rightarrow> nat list \<times> nat \<Rightarrow> nat list \<times> nat" where
  "cell a b i j = (\<lambda>(dp, prev).
     let cur = dp ! j;
         cost = subst_cost (a ! (i - 1)) (b ! (j - 1))
     in (dp[j := min (min (dp ! j + 1) (dp ! (j - 1) + 1)) (prev + cost)], cur))"

definition row :: "string \<Rightarrow> string \<Rightarrow> nat \<Rightarrow> nat list \<Rightarrow> nat list" where
  "row a b i dp =
     (let prev = dp ! 0;
          dp1 = dp[0 := i]
      in fst (fold (cell a b i) [1..<length b + 1] (dp1, prev)))"

definition levenshteinDistance :: "string \<Rightarrow> string \<Rightarrow> nat" where
  "levenshteinDistance a b =
     (if a = [] then length b
      else if b = [] then length a
      else
        let dp0 = fold (\<lambda>j dp. dp[j := j]) [0..<length b + 1] (replicate (length b + 1) 0)
        in fold (row a b) [1..<length a + 1] dp0 ! length b)"

lemma take_snoc_nth: "i < length xs \<Longrightarrow> take (Suc i) xs = take i xs @ [xs ! i]"
  by (rule take_Suc_conv_app_nth)

lemma lev_take_step:
  assumes "i < length a" and "j < length b"
  shows "lev (take (Suc i) a) (take (Suc j) b) =
     min (min (lev (take i a) (take (Suc j) b) + 1) (lev (take (Suc i) a) (take j b) + 1))
       (lev (take i a) (take j b) + subst_cost (a ! i) (b ! j))"
  using assms lev_snoc [of "take i a" "a ! i" "take j b" "b ! j"]
  by (simp add: take_Suc_conv_app_nth)

definition cell_inv :: "string \<Rightarrow> string \<Rightarrow> nat \<Rightarrow> nat \<Rightarrow> nat list \<times> nat \<Rightarrow> bool" where
  "cell_inv a b i m = (\<lambda>(dp, prev).
     length dp = length b + 1 \<and>
     (\<forall>k\<le>m. dp ! k = lev (take (Suc i) a) (take k b)) \<and>
     (\<forall>k. m < k \<and> k \<le> length b \<longrightarrow> dp ! k = lev (take i a) (take k b)) \<and>
     prev = lev (take i a) (take m b))"

lemma cell_inv_step:
  assumes "cell_inv a b i m st" and "i < length a" and "m < length b"
  shows "cell_inv a b i (Suc m) (cell a b (Suc i) (Suc m) st)"
proof -
  obtain dp prev where st: "st = (dp, prev)" by (cases st)
  from assms(1) have len: "length dp = length b + 1"
    and lo: "\<And>k. k \<le> m \<Longrightarrow> dp ! k = lev (take (Suc i) a) (take k b)"
    and hi: "\<And>k. m < k \<Longrightarrow> k \<le> length b \<Longrightarrow> dp ! k = lev (take i a) (take k b)"
    and pr: "prev = lev (take i a) (take m b)"
    by (simp_all add: cell_inv_def st)
  have new: "min (min (dp ! Suc m + 1) (dp ! m + 1)) (prev + subst_cost (a ! i) (b ! m)) =
      lev (take (Suc i) a) (take (Suc m) b)"
    using lev_take_step [OF assms(2,3)] lo [of m] hi [of "Suc m"] pr assms(3) by simp
  show ?thesis
    using len lo hi assms(3) new
    by (auto simp: cell_inv_def st cell_def Let_def nth_list_update le_Suc_eq)
qed

lemma cell_inv_fold:
  assumes "cell_inv a b i 0 st" and "i < length a" and "m \<le> length b"
  shows "cell_inv a b i m (fold (cell a b (Suc i)) [1..<Suc m] st)"
  using assms(3)
proof (induction m)
  case 0
  show ?case using assms(1) by simp
next
  case (Suc m)
  then have "cell_inv a b i m (fold (cell a b (Suc i)) [1..<Suc m] st)" by simp
  from cell_inv_step [OF this assms(2)] Suc.prems show ?case by simp
qed

lemma row_correct:
  assumes "dp = map (\<lambda>k. lev (take i a) (take k b)) [0..<length b + 1]" and "i < length a"
  shows "row a b (Suc i) dp = map (\<lambda>k. lev (take (Suc i) a) (take k b)) [0..<length b + 1]"
proof -
  let ?st = "(dp[0 := Suc i], dp ! 0)"
  have "cell_inv a b i 0 ?st"
    using assms by (auto simp: cell_inv_def nth_list_update simp del: upt_Suc)
  from cell_inv_fold [OF this assms(2) order_refl]
  have inv: "cell_inv a b i (length b) (fold (cell a b (Suc i)) [1..<Suc (length b)] ?st)" .
  obtain dp' prev' where r: "fold (cell a b (Suc i)) [1..<Suc (length b)] ?st = (dp', prev')"
    by (cases "fold (cell a b (Suc i)) [1..<Suc (length b)] ?st")
  from inv [unfolded r] have "length dp' = length b + 1"
    and "\<And>k. k \<le> length b \<Longrightarrow> dp' ! k = lev (take (Suc i) a) (take k b)"
    by (simp_all add: cell_inv_def)
  then have "dp' = map (\<lambda>k. lev (take (Suc i) a) (take k b)) [0..<length b + 1]"
    by (intro nth_equalityI) (simp_all add: nth_append less_Suc_eq_le del: upt_Suc)
  moreover have "row a b (Suc i) dp = dp'"
    unfolding row_def Let_def using r by simp
  ultimately show ?thesis by simp
qed

lemma rows_correct:
  assumes "n \<le> length a"
  shows "fold (row a b) [1..<Suc n] (map (\<lambda>k. lev (take 0 a) (take k b)) [0..<length b + 1]) =
     map (\<lambda>k. lev (take n a) (take k b)) [0..<length b + 1]"
  using assms
proof (induction n)
  case 0
  show ?case by simp
next
  case (Suc n)
  then show ?case
    by (simp add: row_correct del: upt_Suc) (simp add: row_correct)
qed

lemma dp0_init:
  "fold (\<lambda>j dp. dp[j := j]) [0..<n] (replicate m 0) = [0..<min n m] @ replicate (m - n) 0"
proof (induction n)
  case 0
  show ?case by simp
next
  case (Suc n)
  show ?case
  proof (cases "n < m")
    case True
    then have "(replicate (m - n) (0::nat))[0 := n] = n # replicate (m - Suc n) 0"
      by (cases "m - n") (simp_all add: Suc_diff_Suc)
    with True show ?thesis
      by (simp add: Suc list_update_append min_def)
  next
    case False
    then show ?thesis by (simp add: Suc min_def list_update_beyond)
  qed
qed

theorem levenshteinDistance_lev: "levenshteinDistance a b = lev a b"
proof -
  have "fold (row a b) [1..<length a + 1]
      (fold (\<lambda>j dp. dp[j := j]) [0..<length b + 1] (replicate (length b + 1) 0)) ! length b =
      lev a b"
  proof -
    have "fold (\<lambda>j dp. dp[j := j]) [0..<length b + 1] (replicate (length b + 1) 0) =
        map (\<lambda>k. lev (take 0 a) (take k b)) [0..<length b + 1]"
      unfolding dp0_init by (intro nth_equalityI) (simp_all del: upt_Suc)
    then show ?thesis
      using rows_correct [of "length a" a b] by (simp add: nth_append del: upt_Suc)
  qed
  then show ?thesis
    by (auto simp: levenshteinDistance_def Let_def)
qed


subsection \<open>The recurrence is the least number of edits\<close>

text \<open>
  An edit script walks the source string from left to right: it keeps a character,
  substitutes it, deletes it, or inserts a new character.  Its cost is the number of
  steps other than \<open>Keep\<close>.
\<close>

datatype 'a edit_op = Keep | Substitute 'a | Insert 'a | Delete

fun apply_edits :: "'a edit_op list \<Rightarrow> 'a list \<Rightarrow> 'a list option" where
  "apply_edits [] xs = (if xs = [] then Some [] else None)"
| "apply_edits (Insert a # es) xs = map_option (Cons a) (apply_edits es xs)"
| "apply_edits (e # es) [] = None"
| "apply_edits (Keep # es) (x # xs) = map_option (Cons x) (apply_edits es xs)"
| "apply_edits (Substitute a # es) (x # xs) = map_option (Cons a) (apply_edits es xs)"
| "apply_edits (Delete # es) (x # xs) = apply_edits es xs"

definition edit_cost :: "'a edit_op list \<Rightarrow> nat" where
  "edit_cost es = length (filter (\<lambda>e. e \<noteq> Keep) es)"

lemma lev_drop_left: "lev (x # xs) ys \<le> lev xs ys + 1"
  by (cases ys) simp_all

lemma lev_drop_right: "lev xs (y # ys) \<le> lev xs ys + 1"
  by (cases xs) simp_all

lemma lev_drop_both: "lev (x # xs) (y # ys) \<le> lev xs ys + subst_cost x y"
  by simp

lemma lev_lower_bound: "apply_edits es xs = Some ys \<Longrightarrow> lev xs ys \<le> edit_cost es"
proof (induction es xs arbitrary: ys rule: apply_edits.induct)
  case (1 xs)
  then show ?case by (simp split: if_splits)
next
  case (2 a es xs)
  then obtain zs where zs: "apply_edits es xs = Some zs" "ys = a # zs" by auto
  have "lev xs (a # zs) \<le> lev xs zs + 1" by (rule lev_drop_right)
  also have "\<dots> \<le> edit_cost es + 1" using "2.IH" [OF zs(1)] by simp
  finally show ?case by (simp add: zs(2) edit_cost_def)
next
  case (4 es x xs)
  then obtain zs where zs: "apply_edits es xs = Some zs" "ys = x # zs" by auto
  have "lev (x # xs) (x # zs) \<le> lev xs zs + subst_cost x x" by (rule lev_drop_both)
  also have "\<dots> \<le> edit_cost es" using "4.IH" [OF zs(1)] by (simp add: subst_cost_def)
  finally show ?case by (simp add: zs(2) edit_cost_def)
next
  case (5 a es x xs)
  then obtain zs where zs: "apply_edits es xs = Some zs" "ys = a # zs" by auto
  have "lev (x # xs) (a # zs) \<le> lev xs zs + subst_cost x a" by (rule lev_drop_both)
  also have "\<dots> \<le> edit_cost es + 1" using "5.IH" [OF zs(1)] by (simp add: subst_cost_def)
  finally show ?case by (simp add: zs(2) edit_cost_def)
next
  case (6 es x xs)
  then have zs: "apply_edits es xs = Some ys" by simp
  have "lev (x # xs) ys \<le> lev xs ys + 1" by (rule lev_drop_left)
  also have "\<dots> \<le> edit_cost es + 1" using "6.IH" [OF zs] by simp
  finally show ?case by (simp add: edit_cost_def)
qed simp_all

lemma lev_attained: "\<exists>es. apply_edits es xs = Some ys \<and> edit_cost es = lev xs ys"
proof (induction xs ys rule: lev.induct)
  case (1 ys)
  have "apply_edits (map Insert ys) [] = Some ys \<and> edit_cost (map Insert ys) = length ys"
    by (induction ys) (simp_all add: edit_cost_def)
  then show ?case by auto
next
  case (2 x xs)
  have "apply_edits (replicate n Delete) zs = Some [] \<and> edit_cost (replicate n Delete) = n"
    if "length zs = n" for n and zs :: "'a list"
    using that by (induction zs arbitrary: n) (auto simp: edit_cost_def)
  from this [of "x # xs" "length (x # xs)"]
  have "apply_edits (replicate (length (x # xs)) Delete) (x # xs) = Some [] \<and>
      edit_cost (replicate (length (x # xs)) Delete) = lev (x # xs) []"
    by simp
  then show ?case by (rule exI)
next
  case (3 x xs y ys)
  from "3.IH" obtain e1 e2 e3 where
    e1: "apply_edits e1 xs = Some (y # ys)" "edit_cost e1 = lev xs (y # ys)" and
    e2: "apply_edits e2 (x # xs) = Some ys" "edit_cost e2 = lev (x # xs) ys" and
    e3: "apply_edits e3 xs = Some ys" "edit_cost e3 = lev xs ys"
    by blast
  let ?d = "Delete # e1" and ?i = "Insert y # e2"
  let ?s = "(if x = y then Keep else Substitute y) # e3"
  have d: "apply_edits ?d (x # xs) = Some (y # ys)" "edit_cost ?d = lev xs (y # ys) + 1"
    using e1 by (simp_all add: edit_cost_def)
  have i: "apply_edits ?i (x # xs) = Some (y # ys)" "edit_cost ?i = lev (x # xs) ys + 1"
    using e2 by (simp_all add: edit_cost_def)
  have s: "apply_edits ?s (x # xs) = Some (y # ys)" "edit_cost ?s = lev xs ys + subst_cost x y"
    using e3 by (simp_all add: edit_cost_def subst_cost_def)
  have "lev (x # xs) (y # ys) = lev xs (y # ys) + 1 \<or>
        lev (x # xs) (y # ys) = lev (x # xs) ys + 1 \<or>
        lev (x # xs) (y # ys) = lev xs ys + subst_cost x y"
    unfolding lev.simps min_def by simp
  with d i s show ?case by metis
qed

text \<open>
  \<open>lev xs ys\<close> is the cost of some edit script from \<open>xs\<close> to \<open>ys\<close>, and no script is
  cheaper.
\<close>

lemma lev_least_edit_cost:
  "(\<exists>es. apply_edits es xs = Some ys \<and> edit_cost es = lev xs ys) \<and>
   (\<forall>es. apply_edits es xs = Some ys \<longrightarrow> lev xs ys \<le> edit_cost es)"
  using lev_attained lev_lower_bound by blast

text \<open>
  Symbol names and queries are taken to be ASCII text (identifiers match \<^verbatim>\<open>\w+\<close>), where
  \<^verbatim>\<open>toLowerCase\<close> maps \<^verbatim>\<open>A\<close>..\<^verbatim>\<open>Z\<close> to \<^verbatim>\<open>a\<close>..\<^verbatim>\<open>z\<close> and keeps every other character.
\<close>

definition lower_char :: "char \<Rightarrow> char" where
  "lower_char c =
     (case map_of (zip ''ABCDEFGHIJKLMNOPQRSTUVWXYZ'' ''abcdefghijklmnopqrstuvwxyz'') c of
        None \<Rightarrow> c
      | Some l \<Rightarrow> l)"

definition toLowerCase :: "string \<Rightarrow> string" where
  "toLowerCase s = map lower_char s"

fun startsWith :: "string \<Rightarrow> string \<Rightarrow> bool" where
  "startsWith s [] = True"
| "startsWith [] (c # q) = False"
| "startsWith (x # s) (c # q) = (x = c \<and> startsWith s q)"

fun includes_str :: "string \<Rightarrow> string \<Rightarrow> bool" where
  "includes_str [] q = startsWith [] q"
| "includes_str (x # s) q = (startsWith (x # s) q \<or> includes_str s q)"

record Symbol =
  sym_id :: string
  repo :: string
  sym_path :: string
  sym_name :: string
  kind :: string
  startLine :: int
  endLine :: int
  nodeType :: string
  hash :: string

text \<open>
  \<^verbatim>\<open>Math.floor(name.length * 0.3)\<close> is computed in double precision.  The double nearest
  to 0.3 lies below it by a relative error of less than \<open>2\<^sup>-\<^sup>5\<^sup>4\<close>, so for every length a
  string can have the product rounds to the integer \<open>3n/10\<close> when that is an integer and
  otherwise stays strictly between the neighbouring integers: the floor is \<open>3 * n div 10\<close>.
\<close>

definition calculateSymbolScore :: "Symbol \<Rightarrow> string \<Rightarrow> int" where
  "calculateSymbolScore symbol query =
     (let name = toLowerCase (sym_name symbol);
          q = toLowerCase query
      in if name = q then 100
         else if startsWith name q then 90
         else if includes_str name q then 70
         else
           let distance = levenshteinDistance name q;
               threshold = max 1 (3 * length name div 10)
           in if distance \<le> threshold then max 1 (60 - int distance * 5) else 0)"

lemma startsWith_prefix: "startsWith s q = prefix q s"
  by (induction s q rule: startsWith.induct) auto

lemma includes_sublist: "includes_str s q = sublist q s"
  by (induction s) (simp_all add: startsWith_prefix sublist_Cons_right)

lemma length_toLowerCase: "length (toLowerCase s) = length s"
  by (simp add: toLowerCase_def)

text \<open>
  C1. The score of a symbol name against a query, both lower-cased to \<open>N\<close> and \<open>Q\<close>: 100
  when they are equal; else 90 when \<open>Q\<close> is a prefix of \<open>N\<close>; else 70 when \<open>Q\<close> occurs in
  \<open>N\<close>; else, with \<open>d\<close> the Levenshtein distance of \<open>N\<close> and \<open>Q\<close> and the threshold
  \<open>max 1 (3 * length N div 10)\<close>, it is \<open>max 1 (60 - 5 * d)\<close> when \<open>d\<close> is at most the
  threshold and 0 otherwise.  For the query \<open>alu\<close> the name \<open>alu\<close> scores 100, \<open>alu_ctrl\<close>
  scores 90 and \<open>zlu\<close> scores 55, which is not above \<open>alu_ctrl\<close>.
\<close>

theorem calculateSymbolScore_rule:
  "calculateSymbolScore symbol query =
     (let N = toLowerCase (sym_name symbol);
          Q = toLowerCase query;
          d = lev N Q;
          threshold = max 1 (3 * length (sym_name symbol) div 10)
      in if N = Q then 100
         else if prefix Q N then 90
         else if sublist Q N then 70
         else if d \<le> threshold then max 1 (60 - 5 * int d)
         else 0) \<and>
   calculateSymbolScore (symbol\<lparr>sym_name := ''alu''\<rparr>) ''alu'' = 100 \<and>
   calculateSymbolScore (symbol\<lparr>sym_name := ''alu_ctrl''\<rparr>) ''alu'' = 90 \<and>
   calculateSymbolScore (symbol\<lparr>sym_name := ''zlu''\<rparr>) ''alu'' = 55 \<and>
   calculateSymbolScore (symbol\<lparr>sym_name := ''zlu''\<rparr>) ''alu''
     \<le> calculateSymbolScore (symbol\<lparr>sym_name := ''alu_ctrl''\<rparr>) ''alu''"
proof -
  have rule: "calculateSymbolScore s q =
     (let N = toLowerCase (sym_name s);
          Q = toLowerCase q;
          d = lev N Q;
          threshold = max 1 (3 * length (sym_name s) div 10)
      in if N = Q then 100
         else if prefix Q N then 90
         else if sublist Q N then 70
         else if d \<le> threshold then max 1 (60 - 5 * int d)
         else 0)" for s q
    by (simp add: calculateSymbolScore_def Let_def startsWith_prefix includes_sublist
        levenshteinDistance_lev length_toLowerCase mult.commute)
  have low: "toLowerCase ''alu'' = ''alu''" "toLowerCase ''alu_ctrl'' = ''alu_ctrl''"
    "toLowerCase ''zlu'' = ''zlu''"
    by (simp_all add: toLowerCase_def lower_char_def)
  have a: "calculateSymbolScore (symbol\<lparr>sym_name := ''alu''\<rparr>) ''alu'' = 100"
    by (simp add: calculateSymbolScore_def low)
  have b: "calculateSymbolScore (symbol\<lparr>sym_name := ''alu_ctrl''\<rparr>) ''alu'' = 90"
    by (simp add: calculateSymbolScore_def low)
  have c: "calculateSymbolScore (symbol\<lparr>sym_name := ''zlu''\<rparr>) ''alu'' = 55"
    by (simp add: calculateSymbolScore_def low levenshteinDistance_lev subst_cost_def)
  from rule [of symbol query] a b c show ?thesis by simp
qed



section \<open>Search engine: search, result order and the HTTP search handler\<close>

datatype ResultType = SymbolType | TextType

record SearchResult =
  res_type :: ResultType
  res_file :: string
  res_line :: int
  column :: "int option"
  snippet :: string
  symbol :: "Symbol option"
  score :: "int option"

text \<open>
  \<^verbatim>\<open>Array.prototype.sort\<close> is stable; for a comparator that is consistent on the array
  it returns the one stable ordering, which insertion from the right computes.  A
  negative or zero comparison keeps the first argument in front.
\<close>

fun insert_by :: "('a \<Rightarrow> 'a \<Rightarrow> int) \<Rightarrow> 'a \<Rightarrow> 'a list \<Rightarrow> 'a list" where
  "insert_by cmp x [] = [x]"
| "insert_by cmp x (y # ys) = (if cmp x y \<le> 0 then x # y # ys else y # insert_by cmp x ys)"

definition array_sort :: "('a \<Rightarrow> 'a \<Rightarrow> int) \<Rightarrow> 'a list \<Rightarrow> 'a list" where
  "array_sort cmp xs = foldr (insert_by cmp) xs []"

text \<open>
  The comparator of \<^verbatim>\<open>sortResults\<close>.  \<^verbatim>\<open>String.prototype.localeCompare\<close> depends on the
  host's collation and is a parameter.
\<close>

definition compareResults :: "(string \<Rightarrow> string \<Rightarrow> int) \<Rightarrow> SearchResult \<Rightarrow> SearchResult \<Rightarrow> int" where
  "compareResults localeCompare a b =
     (if res_type a = SymbolType \<and> res_type b = TextType then - 1
      else if res_type a = TextType \<and> res_type b = SymbolType then 1
      else if score a \<noteq> None \<and> score b \<noteq> None then the (score b) - the (score a)
      else
        let fileCompare = localeCompare (res_file a) (res_file b)
        in if fileCompare \<noteq> 0 then fileCompare else res_line a - res_line b)"

definition sortResults :: "(string \<Rightarrow> string \<Rightarrow> int) \<Rightarrow> SearchResult list \<Rightarrow> SearchResult list" where
  "sortResults localeCompare results = array_sort (compareResults localeCompare) results"

definition symbol_result :: "Symbol \<Rightarrow> int \<Rightarrow> SearchResult" where
  "symbol_result s sc =
     \<lparr>res_type = SymbolType, res_file = sym_path s, res_line = startLine s, column = None,
      snippet = kind s @ '' '' @ sym_name s, symbol = Some s, score = Some sc\<rparr>"

definition searchSymbols :: "Symbol list \<Rightarrow> string \<Rightarrow> SearchResult list" where
  "searchSymbols symbols query =
     fold (\<lambda>s results.
             let sc = calculateSymbolScore s query
             in if sc > 0 then results @ [symbol_result s sc] else results)
          symbols []"

text \<open>
  Text search runs external programs.  The backend gives, for a repository path and a
  query, the matches ripgrep reports (\<open>None\<close> when \<^verbatim>\<open>which rg\<close> or ripgrep itself fails)
  and the matches grep reports (\<open>None\<close> when grep fails with a status other than 1); a
  match is file, 0-based line, column and trimmed line text.
\<close>

type_synonym TextMatch = "string \<times> int \<times> int option \<times> string"

record TextBackend =
  ripgrep :: "string \<Rightarrow> string \<Rightarrow> TextMatch list option"
  grep :: "string \<Rightarrow> string \<Rightarrow> TextMatch list option"

datatype SearchError = TextSearchFailed

definition text_result :: "TextMatch \<Rightarrow> SearchResult" where
  "text_result m = (case m of (f, l, c, s) \<Rightarrow>
     \<lparr>res_type = TextType, res_file = f, res_line = l, column = c, snippet = s,
      symbol = None, score = None\<rparr>)"

definition searchText :: "TextBackend \<Rightarrow> string \<Rightarrow> string \<Rightarrow> SearchError + SearchResult list" where
  "searchText backend repoPath query =
     (if repoPath = [] then Inr []
      else case ripgrep backend repoPath query of
             Some ms \<Rightarrow> Inr (map text_result ms)
           | None \<Rightarrow>
               (case grep backend repoPath query of
                  Some ms \<Rightarrow> Inr (map text_result ms)
                | None \<Rightarrow> Inl TextSearchFailed))"

text \<open>
  \<open>search\<close> also returns the passes it ran, in order: one entry for the call of
  \<^verbatim>\<open>searchSymbols\<close> and one for the call of \<^verbatim>\<open>searchText\<close>.
\<close>

datatype Work = SymbolPass | TextPass

definition search ::
  "(string \<Rightarrow> string \<Rightarrow> int) \<Rightarrow> TextBackend \<Rightarrow> Symbol list \<Rightarrow> string \<Rightarrow>
   string \<Rightarrow> string option \<Rightarrow> Work list \<times> (SearchError + SearchResult list)" where
  "search localeCompare backend symbols repoPath query ty =
     (let symbolMode = (ty = None \<or> ty = Some [] \<or> ty = Some ''symbol'');
          results = (if symbolMode then searchSymbols symbols query else []);
          work = (if symbolMode then [SymbolPass] else [])
      in if results = [] \<or> ty = Some ''text'' then
           (case searchText backend repoPath query of
              Inl e \<Rightarrow> (work @ [TextPass], Inl e)
            | Inr textResults \<Rightarrow>
                (work @ [TextPass], Inr (sortResults localeCompare (results @ textResults))))
         else (work, Inr (sortResults localeCompare results)))"

record ApiResponse =
  success :: bool
  data :: "(SearchResult list \<times> nat) option"
  error :: "string option"
  timestamp :: int

text \<open>
  \<^verbatim>\<open>handleSearch\<close> of the HTTP server, the entry point of \<^verbatim>\<open>GET /search\<close>.  A missing
  \<^verbatim>\<open>query\<close> parameter is \<open>None\<close>; the clock value \<^verbatim>\<open>Date.now()\<close> is a parameter.  An
  exception of the search is passed on (\<open>Inl\<close>), \<^verbatim>\<open>handleRequest\<close> answers it with status
  500; a response is sent with status 200 when \<open>success\<close> holds and 400 otherwise.
\<close>

definition handleSearch ::
  "int \<Rightarrow> (string \<Rightarrow> string \<Rightarrow> int) \<Rightarrow> TextBackend \<Rightarrow> Symbol list \<Rightarrow> string \<Rightarrow>
   string option \<Rightarrow> string option \<Rightarrow> Work list \<times> (SearchError + ApiResponse)" where
  "handleSearch now localeCompare backend symbols repoPath searchQuery searchType =
     (if searchQuery = None \<or> searchQuery = Some [] then
        ([], Inr \<lparr>success = False, data = None, error = Some ''query parameter is required'',
                  timestamp = now\<rparr>)
      else
        case search localeCompare backend symbols repoPath (the searchQuery) searchType of
          (work, Inl e) \<Rightarrow> (work, Inl e)
        | (work, Inr results) \<Rightarrow>
            (work, Inr \<lparr>success = True, data = Some (results, length results), error = None,
                        timestamp = now\<rparr>))"

definition http_status :: "SearchError + ApiResponse \<Rightarrow> nat" where
  "http_status r = (case r of Inl e \<Rightarrow> 500 | Inr response \<Rightarrow> if success response then 200 else 400)"

text \<open>Every call of \<open>search\<close> runs at least one of its two passes.\<close>

lemma search_runs_a_pass: "fst (search localeCompare backend symbols repoPath query ty) \<noteq> []"
  by (auto simp: search_def Let_def split: sum.splits)

lemma handleSearch_nonempty_runs_search:
  "q \<noteq> [] \<Longrightarrow> fst (handleSearch now localeCompare backend symbols repoPath (Some q) ty) \<noteq> []"
  using search_runs_a_pass [of localeCompare backend symbols repoPath q ty]
  by (auto simp: handleSearch_def split: prod.splits sum.splits)


text \<open>
  The engine's \<open>search\<close> has no check of its own: an empty query is a prefix of every
  name and scores each symbol 90 (100 for an empty name).
\<close>

lemma calculateSymbolScore_empty_query:
  "calculateSymbolScore s [] = (if sym_name s = [] then 100 else 90)"
  by (simp add: calculateSymbolScore_def toLowerCase_def)

subsection \<open>Order of the results\<close>

lemma set_insert_by [simp]: "set (insert_by cmp x ys) = insert x (set ys)"
  by (induction ys) auto

lemma set_array_sort [simp]: "set (array_sort cmp xs) = set xs"
  by (induction xs) (simp_all add: array_sort_def)

lemma length_insert_by [simp]: "length (insert_by cmp x ys) = Suc (length ys)"
  by (induction ys) auto

lemma length_array_sort [simp]: "length (array_sort cmp xs) = length xs"
  by (induction xs) (simp_all add: array_sort_def)

lemma sorted_insert_by:
  assumes "sorted_wrt (\<lambda>a b. cmp a b \<le> 0) ys"
    and total: "\<And>y. y \<in> set ys \<Longrightarrow> cmp x y \<le> 0 \<or> cmp y x \<le> 0"
    and trans: "\<And>y z. y \<in> set ys \<Longrightarrow> z \<in> set ys \<Longrightarrow> cmp x y \<le> 0 \<Longrightarrow> cmp y z \<le> 0 \<Longrightarrow> cmp x z \<le> 0"
  shows "sorted_wrt (\<lambda>a b. cmp a b \<le> 0) (insert_by cmp x ys)"
  using assms
proof (induction ys)
  case Nil
  show ?case by simp
next
  case (Cons y ys)
  show ?case
  proof (cases "cmp x y \<le> 0")
    case True
    then have "\<forall>z\<in>set ys. cmp x z \<le> 0"
      using Cons.prems(1) Cons.prems(3) [of y] by auto
    with True Cons.prems(1) show ?thesis by simp
  next
    case False
    then have "cmp y x \<le> 0" using Cons.prems(2) [of y] by simp
    moreover have "sorted_wrt (\<lambda>a b. cmp a b \<le> 0) (insert_by cmp x ys)"
      using Cons.prems by (intro Cons.IH) auto
    ultimately show ?thesis
      using False Cons.prems(1) by simp
  qed
qed

lemma sorted_array_sort:
  assumes total: "\<And>x y. x \<in> set xs \<Longrightarrow> y \<in> set xs \<Longrightarrow> cmp x y \<le> 0 \<or> cmp y x \<le> 0"
    and trans: "\<And>x y z. x \<in> set xs \<Longrightarrow> y \<in> set xs \<Longrightarrow> z \<in> set xs \<Longrightarrow>
        cmp x y \<le> 0 \<Longrightarrow> cmp y z \<le> 0 \<Longrightarrow> cmp x z \<le> 0"
  shows "sorted_wrt (\<lambda>a b. cmp a b \<le> 0) (array_sort cmp xs)"
  using assms
proof (induction xs)
  case Nil
  show ?case by (simp add: array_sort_def)
next
  case (Cons x xs)
  have "sorted_wrt (\<lambda>a b. cmp a b \<le> 0) (array_sort cmp xs)"
  proof (rule Cons.IH)
    fix a b assume "a \<in> set xs" "b \<in> set xs"
    then show "cmp a b \<le> 0 \<or> cmp b a \<le> 0"
      using Cons.prems(1) [of a b] by simp
  next
    fix a b c assume "a \<in> set xs" "b \<in> set xs" "c \<in> set xs" "cmp a b \<le> 0" "cmp b c \<le> 0"
    then show "cmp a c \<le> 0"
      using Cons.prems(2) [of a b c] by simp
  qed
  then have "sorted_wrt (\<lambda>a b. cmp a b \<le> 0) (insert_by cmp x (array_sort cmp xs))"
  proof (rule sorted_insert_by)
    fix y assume "y \<in> set (array_sort cmp xs)"
    then show "cmp x y \<le> 0 \<or> cmp y x \<le> 0"
      using Cons.prems(1) [of x y] by simp
  next
    fix y z assume "y \<in> set (array_sort cmp xs)" "z \<in> set (array_sort cmp xs)"
      "cmp x y \<le> 0" "cmp y z \<le> 0"
    then show "cmp x z \<le> 0"
      using Cons.prems(2) [of x y z] by simp
  qed
  then show ?case by (simp add: array_sort_def)
qed

lemma filter_insert_by:
  assumes "\<And>y. y \<in> set ys \<Longrightarrow> P x \<Longrightarrow> P y \<Longrightarrow> cmp x y \<le> 0"
  shows "filter P (insert_by cmp x ys) = filter P (x # ys)"
  using assms by (induction ys) auto

text \<open>Stability: elements that compare as equal keep their order.\<close>

lemma filter_array_sort:
  assumes "\<And>x y. x \<in> set xs \<Longrightarrow> y \<in> set xs \<Longrightarrow> P x \<Longrightarrow> P y \<Longrightarrow> cmp x y \<le> 0"
  shows "filter P (array_sort cmp xs) = filter P xs"
  using assms
proof (induction xs)
  case Nil
  show ?case by (simp add: array_sort_def)
next
  case (Cons x xs)
  have "filter P (array_sort cmp (x # xs)) = filter P (x # array_sort cmp xs)"
    unfolding array_sort_def foldr.simps o_apply
    using Cons.prems by (intro filter_insert_by) (auto simp flip: array_sort_def)
  also have "\<dots> = filter P (x # xs)"
    using Cons.prems by (simp add: Cons.IH)
  finally show ?case .
qed

lemma searchSymbols_conv:
  "searchSymbols symbols query =
     map (\<lambda>s. symbol_result s (calculateSymbolScore s query))
       (filter (\<lambda>s. calculateSymbolScore s query > 0) symbols)"
proof -
  have "fold (\<lambda>s results.
             let sc = calculateSymbolScore s query
             in if sc > 0 then results @ [symbol_result s sc] else results) symbols acc =
      acc @ map (\<lambda>s. symbol_result s (calculateSymbolScore s query))
       (filter (\<lambda>s. calculateSymbolScore s query > 0) symbols)" for acc
    by (induction symbols arbitrary: acc) (simp_all add: Let_def)
  then show ?thesis by (simp add: searchSymbols_def)
qed

lemma searchSymbols_elem:
  "r \<in> set (searchSymbols symbols query) \<Longrightarrow> res_type r = SymbolType \<and> score r \<noteq> None"
  by (auto simp: searchSymbols_conv symbol_result_def)

lemma searchText_elem:
  "searchText backend repoPath query = Inr ts \<Longrightarrow> r \<in> set ts \<Longrightarrow>
     res_type r = TextType \<and> score r = None"
  by (auto simp: searchText_def text_result_def split: if_splits option.splits)

text \<open>The list handed to \<^verbatim>\<open>sortResults\<close> holds symbol results only or text results only.\<close>

lemma search_cases:
  assumes "snd (search lc backend symbols repoPath query ty) = Inr rs"
  shows "(rs = sortResults lc (searchSymbols symbols query) \<and> searchSymbols symbols query \<noteq> []) \<or>
         (\<exists>ts. rs = sortResults lc ts \<and> (\<forall>r\<in>set ts. res_type r = TextType \<and> score r = None))"
proof -
  let ?S = "searchSymbols symbols query"
  let ?mode = "ty = None \<or> ty = Some [] \<or> ty = Some ''symbol''"
  show ?thesis
  proof (cases "?mode \<and> ?S \<noteq> []")
    case True
    then have "ty \<noteq> Some ''text''" by auto
    with True have "search lc backend symbols repoPath query ty = ([SymbolPass], Inr (sortResults lc ?S))"
      by (simp add: search_def Let_def)
    with assms True show ?thesis by simp
  next
    case False
    then have empty: "(if ?mode then ?S else []) = []" by auto
    obtain ts where ts: "searchText backend repoPath query = Inr ts" and rs: "rs = sortResults lc ts"
    proof (cases "searchText backend repoPath query")
      case (Inl e)
      with assms empty have False
        by (simp add: search_def Let_def del: not_None_eq)
      then show ?thesis ..
    next
      case (Inr ts)
      with assms empty have "rs = sortResults lc ts"
        by (simp add: search_def Let_def del: not_None_eq)
      with Inr that show ?thesis by blast
    qed
    have "\<forall>r\<in>set ts. res_type r = TextType \<and> score r = None"
      using searchText_elem [OF ts] by blast
    with rs show ?thesis by blast
  qed
qed

definition lc_consistent :: "(string \<Rightarrow> string \<Rightarrow> int) \<Rightarrow> bool" where
  "lc_consistent lc =
     ((\<forall>a b. (lc a b < 0) = (0 < lc b a)) \<and>
      (\<forall>a b c. lc a b \<le> 0 \<and> lc b c \<le> 0 \<longrightarrow> lc a c \<le> 0))"

lemma lc_consistentD:
  assumes "lc_consistent lc"
  shows "(lc a b < 0) = (0 < lc b a)" and "lc a b \<le> 0 \<Longrightarrow> lc b c \<le> 0 \<Longrightarrow> lc a c \<le> 0"
  using assms unfolding lc_consistent_def by blast+

lemma compare_text:
  assumes "res_type a = TextType" "score a = None" "res_type b = TextType"
  shows "(compareResults lc a b \<le> 0) =
     (lc (res_file a) (res_file b) < 0 \<or> lc (res_file a) (res_file b) = 0 \<and> res_line a \<le> res_line b)"
  using assms by (auto simp: compareResults_def Let_def)

lemma compare_symbol:
  assumes "res_type a = SymbolType" "score a \<noteq> None" "res_type b = SymbolType" "score b \<noteq> None"
  shows "(compareResults lc a b \<le> 0) = (the (score b) \<le> the (score a))"
  using assms by (auto simp: compareResults_def)

lemma sorted_text:
  assumes "lc_consistent lc" and "\<forall>r\<in>set ts. res_type r = TextType \<and> score r = None"
  shows "sorted_wrt (\<lambda>a b. compareResults lc a b \<le> 0) (sortResults lc ts)"
  unfolding sortResults_def
proof (rule sorted_array_sort)
  fix x y assume "x \<in> set ts" "y \<in> set ts"
  then show "compareResults lc x y \<le> 0 \<or> compareResults lc y x \<le> 0"
    using assms(2) lc_consistentD(1) [OF assms(1), of "res_file x" "res_file y"]
      lc_consistentD(1) [OF assms(1), of "res_file y" "res_file x"]
    by (simp add: compare_text) linarith
next
  fix x y z assume xs: "x \<in> set ts" "y \<in> set ts" "z \<in> set ts"
    and c: "compareResults lc x y \<le> 0" "compareResults lc y z \<le> 0"
  let ?a = "res_file x" and ?b = "res_file y" and ?c = "res_file z"
  from c xs assms(2) have
    1: "lc ?a ?b < 0 \<or> lc ?a ?b = 0 \<and> res_line x \<le> res_line y" and
    2: "lc ?b ?c < 0 \<or> lc ?b ?c = 0 \<and> res_line y \<le> res_line z"
    by (simp_all add: compare_text)
  have le: "lc ?a ?c \<le> 0"
    using 1 2 by (intro lc_consistentD(2) [OF assms(1), of ?a ?b ?c]) auto
  have "lc ?a ?c < 0 \<or> lc ?a ?c = 0 \<and> res_line x \<le> res_line z"
  proof (cases "lc ?a ?c = 0")
    case False
    with le show ?thesis by simp
  next
    case True
    then have ca: "lc ?c ?a \<le> 0"
      using lc_consistentD(1) [OF assms(1), of ?c ?a] lc_consistentD(1) [OF assms(1), of ?a ?c]
      by linarith
    have "lc ?c ?b \<le> 0" using ca 1 by (intro lc_consistentD(2) [OF assms(1), of ?c ?a ?b]) auto
    then have bc: "\<not> lc ?b ?c < 0"
      using lc_consistentD(1) [OF assms(1), of ?b ?c] by linarith
    have "lc ?b ?a \<le> 0" using ca 2 by (intro lc_consistentD(2) [OF assms(1), of ?b ?c ?a]) auto
    then have ab: "\<not> lc ?a ?b < 0"
      using lc_consistentD(1) [OF assms(1), of ?a ?b] by linarith
    from 1 2 ab bc True show ?thesis by auto
  qed
  then show "compareResults lc x z \<le> 0"
    using xs assms(2) by (simp add: compare_text)
qed

lemma sorted_symbols:
  assumes "\<forall>r\<in>set xs. res_type r = SymbolType \<and> score r \<noteq> None"
  shows "sorted_wrt (\<lambda>a b. compareResults lc a b \<le> 0) (sortResults lc xs)"
  unfolding sortResults_def
proof (rule sorted_array_sort)
  fix x y assume "x \<in> set xs" "y \<in> set xs"
  then show "compareResults lc x y \<le> 0 \<or> compareResults lc y x \<le> 0"
    using assms by (simp add: compare_symbol) linarith
next
  fix x y z assume "x \<in> set xs" "y \<in> set xs" "z \<in> set xs"
    "compareResults lc x y \<le> 0" "compareResults lc y z \<le> 0"
  then show "compareResults lc x z \<le> 0"
    using assms by (simp add: compare_symbol)
qed


lemma sorted_wrt_nth:
  "sorted_wrt P xs \<Longrightarrow> i < j \<Longrightarrow> j < length xs \<Longrightarrow> P (xs ! i) (xs ! j)"
  by (simp add: sorted_wrt_iff_nth_less)

text \<open>
  A collation for concrete evaluations: comparison by character code, which is how
  \<^verbatim>\<open>localeCompare\<close> orders the lower-case ASCII paths used below.
\<close>

fun code_compare :: "string \<Rightarrow> string \<Rightarrow> int" where
  "code_compare [] [] = 0"
| "code_compare [] (y # ys) = - 1"
| "code_compare (x # xs) [] = 1"
| "code_compare (x # xs) (y # ys) =
     (if (of_char x :: nat) < of_char y then - 1
      else if (of_char y :: nat) < of_char x then 1
      else code_compare xs ys)"

lemma code_compare_range: "code_compare a b \<in> {- 1, 0, 1}"
  by (induction a b rule: code_compare.induct) auto

lemma code_compare_flip: "code_compare b a = - code_compare a b"
  by (induction a b rule: code_compare.induct) auto

lemma lex_step:
  "(p::nat) < q \<or> p = q \<and> A \<Longrightarrow> q < r \<or> q = r \<and> B \<Longrightarrow> \<not> p < r \<Longrightarrow>
     p = q \<and> q = r \<and> A \<and> B"
  by auto

lemma code_compare_Cons:
  "code_compare (x # xs) (y # ys) \<le> 0 \<longleftrightarrow>
     (of_char x :: nat) < of_char y \<or> (of_char x :: nat) = of_char y \<and> code_compare xs ys \<le> 0"
  by (cases "(of_char x :: nat) < of_char y"; cases "(of_char y :: nat) < of_char x") auto

lemma code_compare_trans:
  "code_compare a b \<le> 0 \<Longrightarrow> code_compare b c \<le> 0 \<Longrightarrow> code_compare a c \<le> 0"
proof (induction a b arbitrary: c rule: code_compare.induct)
  case 1
  then show ?case by simp
next
  case (2 y ys)
  then show ?case by (cases c) simp_all
next
  case (3 x xs)
  then show ?case by simp
next
  case (4 x xs y ys)
  show ?case
  proof (cases c)
    case Nil
    with "4.prems" show ?thesis by simp
  next
    case (Cons z zs)
    let ?x = "of_char x :: nat" and ?y = "of_char y :: nat" and ?z = "of_char z :: nat"
    from "4.prems"(1) have xy: "?x < ?y \<or> ?x = ?y \<and> code_compare xs ys \<le> 0"
      unfolding code_compare_Cons .
    from "4.prems"(2) have yz: "?y < ?z \<or> ?y = ?z \<and> code_compare ys zs \<le> 0"
      unfolding Cons code_compare_Cons .
    show ?thesis
    proof (cases "?x < ?z")
      case True
      then show ?thesis unfolding Cons code_compare_Cons ..
    next
      case False
      from lex_step [OF xy yz False]
      have eq: "?x = ?y" "?y = ?z" and le: "code_compare xs ys \<le> 0" "code_compare ys zs \<le> 0"
        by blast+
      have "\<not> ?x < ?y" "\<not> ?y < ?x" using eq(1) by linarith+
      then have "code_compare xs zs \<le> 0"
        using le by (rule "4.IH")
      moreover have "?x = ?z" using eq by (rule trans)
      ultimately show ?thesis unfolding Cons code_compare_Cons by blast
    qed
  qed
qed


lemma code_compare_consistent: "lc_consistent code_compare"
  unfolding lc_consistent_def
proof (intro conjI allI impI)
  fix a b
  show "(code_compare a b < 0) = (0 < code_compare b a)"
    using code_compare_flip [of b a] by simp
next
  fix a b c
  assume "code_compare a b \<le> 0 \<and> code_compare b c \<le> 0"
  then show "code_compare a c \<le> 0"
    using code_compare_trans by blast
qed

text \<open>
  C6 (amended). In every result list of \<open>search\<close>, symbol results come before text
  results.  Symbol results are in descending score order; symbol results of equal score
  are in the order in which the symbol table lists them (file path and line are not
  compared).  Text results, which carry no score, are ordered by file path and then by
  ascending line number.
\<close>

theorem search_result_order:
  assumes "lc_consistent lc"
    and "snd (search lc backend symbols repoPath query ty) = Inr rs"
  shows
    "(\<forall>i j. i < j \<and> j < length rs \<and> res_type (rs ! j) = SymbolType \<longrightarrow>
        res_type (rs ! i) = SymbolType) \<and>
     (\<forall>i j. i < j \<and> j < length rs \<and> res_type (rs ! i) = SymbolType \<and>
        res_type (rs ! j) = SymbolType \<longrightarrow>
        score (rs ! i) \<noteq> None \<and> score (rs ! j) \<noteq> None \<and>
        the (score (rs ! j)) \<le> the (score (rs ! i))) \<and>
     (\<forall>sc. filter (\<lambda>r. res_type r = SymbolType \<and> score r = Some sc) rs =
        (if \<exists>r\<in>set rs. res_type r = SymbolType
         then filter (\<lambda>r. score r = Some sc) (searchSymbols symbols query) else [])) \<and>
     (\<forall>i j. i < j \<and> j < length rs \<and> res_type (rs ! i) = TextType \<and>
        res_type (rs ! j) = TextType \<longrightarrow>
        lc (res_file (rs ! i)) (res_file (rs ! j)) < 0 \<or>
        lc (res_file (rs ! i)) (res_file (rs ! j)) = 0 \<and> res_line (rs ! i) \<le> res_line (rs ! j))"
proof -
  let ?S = "searchSymbols symbols query"
  from search_cases [OF assms(2)] consider
    (S) "rs = sortResults lc ?S" "?S \<noteq> []"
    | (T) ts where "rs = sortResults lc ts" "\<forall>r\<in>set ts. res_type r = TextType \<and> score r = None"
    by blast
  then show ?thesis
  proof cases
    case S
    have el: "\<forall>r\<in>set ?S. res_type r = SymbolType \<and> score r \<noteq> None"
      using searchSymbols_elem by blast
    then have all: "\<And>r. r \<in> set rs \<Longrightarrow> res_type r = SymbolType \<and> score r \<noteq> None"
      by (simp add: S(1) sortResults_def)
    have nth: "\<And>i. i < length rs \<Longrightarrow> res_type (rs ! i) = SymbolType \<and> score (rs ! i) \<noteq> None"
      using all nth_mem by blast
    have srt: "sorted_wrt (\<lambda>a b. compareResults lc a b \<le> 0) rs"
      unfolding S(1) by (rule sorted_symbols [OF el])
    have ord: "the (score (rs ! j)) \<le> the (score (rs ! i))" if "i < j" "j < length rs" for i j
    proof -
      have "compareResults lc (rs ! i) (rs ! j) \<le> 0"
        using sorted_wrt_nth [OF srt that] .
      moreover have "i < length rs" using that by simp
      ultimately show ?thesis
        using nth [of i] nth [of j] that(2) by (simp add: compare_symbol)
    qed
    have stab: "filter (\<lambda>r. res_type r = SymbolType \<and> score r = Some sc) rs =
        filter (\<lambda>r. score r = Some sc) ?S" for sc
    proof -
      have "filter (\<lambda>r. res_type r = SymbolType \<and> score r = Some sc) rs =
          filter (\<lambda>r. res_type r = SymbolType \<and> score r = Some sc) ?S"
        unfolding S(1) sortResults_def
        by (rule filter_array_sort) (simp add: compareResults_def)
      also have "\<dots> = filter (\<lambda>r. score r = Some sc) ?S"
        using el by (intro filter_cong) auto
      finally show ?thesis .
    qed
    have ex: "\<exists>r\<in>set rs. res_type r = SymbolType"
    proof -
      from S(2) obtain r where "r \<in> set ?S" by (cases ?S) auto
      then have "r \<in> set rs" by (simp add: S(1) sortResults_def)
      with all show ?thesis by blast
    qed
    have 1: "\<forall>i j. i < j \<and> j < length rs \<and> res_type (rs ! j) = SymbolType \<longrightarrow>
        res_type (rs ! i) = SymbolType"
      using nth by simp
    have 2: "\<forall>i j. i < j \<and> j < length rs \<and> res_type (rs ! i) = SymbolType \<and>
        res_type (rs ! j) = SymbolType \<longrightarrow>
        score (rs ! i) \<noteq> None \<and> score (rs ! j) \<noteq> None \<and>
        the (score (rs ! j)) \<le> the (score (rs ! i))"
      using nth ord by (metis less_trans)
    have 3: "\<forall>sc. filter (\<lambda>r. res_type r = SymbolType \<and> score r = Some sc) rs =
        (if \<exists>r\<in>set rs. res_type r = SymbolType
         then filter (\<lambda>r. score r = Some sc) ?S else [])"
      using stab ex by simp
    have 4: "\<forall>i j. i < j \<and> j < length rs \<and> res_type (rs ! i) = TextType \<and>
        res_type (rs ! j) = TextType \<longrightarrow>
        lc (res_file (rs ! i)) (res_file (rs ! j)) < 0 \<or>
        lc (res_file (rs ! i)) (res_file (rs ! j)) = 0 \<and> res_line (rs ! i) \<le> res_line (rs ! j)"
      using nth by auto
    from 1 2 3 4 show ?thesis by blast
  next
    case T
    have all: "\<And>r. r \<in> set rs \<Longrightarrow> res_type r = TextType \<and> score r = None"
      using T(2) by (simp add: T(1) sortResults_def)
    have nth: "\<And>i. i < length rs \<Longrightarrow> res_type (rs ! i) = TextType \<and> score (rs ! i) = None"
      using all nth_mem by blast
    have srt: "sorted_wrt (\<lambda>a b. compareResults lc a b \<le> 0) rs"
      unfolding T(1) by (rule sorted_text [OF assms(1) T(2)])
    have ord: "lc (res_file (rs ! i)) (res_file (rs ! j)) < 0 \<or>
        lc (res_file (rs ! i)) (res_file (rs ! j)) = 0 \<and> res_line (rs ! i) \<le> res_line (rs ! j)"
      if "i < j" "j < length rs" for i j
    proof -
      have "compareResults lc (rs ! i) (rs ! j) \<le> 0"
        using sorted_wrt_nth [OF srt that] .
      moreover have "i < length rs" using that by simp
      ultimately show ?thesis
        using nth [of i] nth [of j] that(2) by (simp add: compare_text)
    qed
    have 1: "\<forall>i j. i < j \<and> j < length rs \<and> res_type (rs ! j) = SymbolType \<longrightarrow>
        res_type (rs ! i) = SymbolType"
      using nth by auto
    have 2: "\<forall>i j. i < j \<and> j < length rs \<and> res_type (rs ! i) = SymbolType \<and>
        res_type (rs ! j) = SymbolType \<longrightarrow>
        score (rs ! i) \<noteq> None \<and> score (rs ! j) \<noteq> None \<and>
        the (score (rs ! j)) \<le> the (score (rs ! i))"
      using nth by auto
    have 3: "\<forall>sc. filter (\<lambda>r. res_type r = SymbolType \<and> score r = Some sc) rs =
        (if \<exists>r\<in>set rs. res_type r = SymbolType
         then filter (\<lambda>r. score r = Some sc) ?S else [])"
      using all by (auto simp: filter_empty_conv)
    have 4: "\<forall>i j. i < j \<and> j < length rs \<and> res_type (rs ! i) = TextType \<and>
        res_type (rs ! j) = TextType \<longrightarrow>
        lc (res_file (rs ! i)) (res_file (rs ! j)) < 0 \<or>
        lc (res_file (rs ! i)) (res_file (rs ! j)) = 0 \<and> res_line (rs ! i) \<le> res_line (rs ! j)"
      using ord by blast
    from 1 2 3 4 show ?thesis by blast
  qed
qed


definition ex_backend :: TextBackend where
  "ex_backend =
     \<lparr>ripgrep = (\<lambda>repoPath query.
        if query = ''clk'' then
          Some [(''/rtl/b.v'', 5, Some 6, ''input clk,''),
                (''/rtl/a.v'', 9, Some 5, ''wire clk_div;''),
                (''/rtl/a.v'', 2, Some 6, ''input clk,'')]
        else None),
      grep = (\<lambda>repoPath query. None)\<rparr>"

definition ex_symbol :: "string \<Rightarrow> string \<Rightarrow> int \<Rightarrow> Symbol" where
  "ex_symbol i p l =
     \<lparr>sym_id = i, repo = ''/rtl'', sym_path = p, sym_name = ''alu'', kind = ''module'',
      startLine = l, endLine = l, nodeType = ''m'', hash = ''0''\<rparr>"

lemmas search_eval = search_def searchSymbols_def searchText_def sortResults_def array_sort_def
  compareResults_def symbol_result_def text_result_def calculateSymbolScore_def toLowerCase_def
  lower_char_def Let_def

text \<open>A text search whose backend reports three matches out of order.\<close>

theorem search_result_order_witness:
  "snd (search code_compare ex_backend [] ''/rtl'' ''clk'' (Some ''text'')) =
     Inr [text_result (''/rtl/a.v'', 2, Some 6, ''input clk,''),
          text_result (''/rtl/a.v'', 9, Some 5, ''wire clk_div;''),
          text_result (''/rtl/b.v'', 5, Some 6, ''input clk,'')] \<and>
   (code_compare ''/rtl/a.v'' ''/rtl/a.v'' < 0 \<or>
    code_compare ''/rtl/a.v'' ''/rtl/a.v'' = 0 \<and> (2 :: int) \<le> 9) \<and>
   (code_compare ''/rtl/a.v'' ''/rtl/b.v'' < 0 \<or>
    code_compare ''/rtl/a.v'' ''/rtl/b.v'' = 0 \<and> (9 :: int) \<le> 5)"
proof -
  let ?rs = "[text_result (''/rtl/a.v'', 2, Some 6, ''input clk,''),
          text_result (''/rtl/a.v'', 9, Some 5, ''wire clk_div;''),
          text_result (''/rtl/b.v'', 5, Some 6, ''input clk,'')]"
  have r: "snd (search code_compare ex_backend [] ''/rtl'' ''clk'' (Some ''text'')) = Inr ?rs"
    by (simp add: search_eval ex_backend_def)
  from search_result_order [OF code_compare_consistent r]
  have o: "\<forall>i j. i < j \<and> j < length ?rs \<and> res_type (?rs ! i) = TextType \<and>
        res_type (?rs ! j) = TextType \<longrightarrow>
        code_compare (res_file (?rs ! i)) (res_file (?rs ! j)) < 0 \<or>
        code_compare (res_file (?rs ! i)) (res_file (?rs ! j)) = 0 \<and>
        res_line (?rs ! i) \<le> res_line (?rs ! j)"
    by blast
  have "code_compare ''/rtl/a.v'' ''/rtl/a.v'' < 0 \<or>
    code_compare ''/rtl/a.v'' ''/rtl/a.v'' = 0 \<and> (2 :: int) \<le> 9"
    using o [rule_format, of 0 1] by (simp add: text_result_def)
  moreover have "code_compare ''/rtl/a.v'' ''/rtl/b.v'' < 0 \<or>
    code_compare ''/rtl/a.v'' ''/rtl/b.v'' = 0 \<and> (9 :: int) \<le> 5"
    using o [rule_format, of 1 2] by (simp add: text_result_def)
  ultimately show ?thesis using r by blast
qed

text \<open>
  C6 as stated fails: two symbols named \<open>alu\<close> both score 100 for the query \<open>alu\<close>; the
  symbol table lists the one in \<open>/rtl/b.v\<close> first, and the result keeps it first although
  \<open>/rtl/a.v\<close> is the smaller file path.
\<close>

theorem search_equal_scores_keep_table_order:
  "snd (search code_compare ex_backend
      [ex_symbol ''b.v:alu:3'' ''/rtl/b.v'' 3, ex_symbol ''a.v:alu:7'' ''/rtl/a.v'' 7]
      ''/rtl'' ''alu'' None) =
     Inr [symbol_result (ex_symbol ''b.v:alu:3'' ''/rtl/b.v'' 3) 100,
          symbol_result (ex_symbol ''a.v:alu:7'' ''/rtl/a.v'' 7) 100] \<and>
   code_compare ''/rtl/a.v'' ''/rtl/b.v'' < 0"
  by (simp add: search_eval ex_symbol_def)



subsection \<open>The empty query\<close>

text \<open>
  A text backend on which both programs fail, and a module symbol as \<^verbatim>\<open>indexSingleFile\<close>
  makes it for a file of the repository \<open>/rtl\<close>.
\<close>

definition noq_backend :: TextBackend where
  "noq_backend = \<lparr>ripgrep = (\<lambda>repoPath query. None), grep = (\<lambda>repoPath query. None)\<rparr>"

definition noq_symbol :: "string \<Rightarrow> string \<Rightarrow> Symbol" where
  "noq_symbol n p =
     \<lparr>sym_id = p @ '':'' @ n @ '':0'', repo = ''/rtl'', sym_path = ''/rtl/'' @ p, sym_name = n,
      kind = ''module'', startLine = 0, endLine = 0, nodeType = ''regex_match'', hash = ''0''\<rparr>"

text \<open>
  With the empty query every symbol passes the prefix test of \<^verbatim>\<open>calculateSymbolScore\<close>,
  so the symbol pass returns the whole table.
\<close>

lemma searchSymbols_empty_query:
  "searchSymbols symbols [] =
     map (\<lambda>s. symbol_result s (if sym_name s = [] then 100 else 90)) symbols"
  by (simp add: searchSymbols_conv calculateSymbolScore_empty_query)

text \<open>
  C9 as stated fails for \<open>search\<close>: called with the empty query on a table of two
  modules, it runs the symbol pass and returns both modules with score 90.  The outcome
  is a result list, not an error, and the failing text backend is never asked.
\<close>

theorem search_accepts_empty_query:
  "search (\<lambda>a b. 0) noq_backend [noq_symbol ''alu'' ''a.v'', noq_symbol ''top'' ''t.v''] ''/rtl'' '''' None =
     ([SymbolPass],
      Inr [symbol_result (noq_symbol ''alu'' ''a.v'') 90, symbol_result (noq_symbol ''top'' ''t.v'') 90])"
  by (simp add: search_eval noq_symbol_def)

text \<open>
  C9 (amended). \<open>search\<close> does not check its query.  With the empty query the symbol
  pass, when the type asks for it, returns every symbol of the table, with score 90 (100
  for a symbol whose name is empty); the text search runs as well when the table is empty
  or the type does not ask for the symbol pass.  The call fails only when the text
  search ran and both text programs failed.  The empty query is rejected by
  \<^verbatim>\<open>handleSearch\<close>, the handler of \<^verbatim>\<open>GET /search\<close>: an empty or missing query is answered
  with the error \<open>query parameter is required\<close> and status 400 before \<open>search\<close> is called,
  so that neither pass runs.
\<close>

theorem search_empty_query_unchecked:
  "searchSymbols symbols [] =
     map (\<lambda>s. symbol_result s (if sym_name s = [] then 100 else 90)) symbols \<and>
   fst (search localeCompare backend symbols repoPath [] ty) =
     (if ty = None \<or> ty = Some [] \<or> ty = Some ''symbol''
      then (if symbols = [] then [SymbolPass, TextPass] else [SymbolPass])
      else [TextPass]) \<and>
   (symbols \<noteq> [] \<and> (ty = None \<or> ty = Some [] \<or> ty = Some ''symbol'') \<longrightarrow>
      snd (search localeCompare backend symbols repoPath [] ty) =
        Inr (sortResults localeCompare
               (map (\<lambda>s. symbol_result s (if sym_name s = [] then 100 else 90)) symbols))) \<and>
   (\<forall>e. snd (search localeCompare backend symbols repoPath [] ty) = Inl e \<longrightarrow>
      repoPath \<noteq> [] \<and> ripgrep backend repoPath [] = None \<and> grep backend repoPath [] = None) \<and>
   handleSearch now localeCompare backend symbols repoPath (Some '''') ty =
     ([], Inr \<lparr>success = False, data = None, error = Some ''query parameter is required'',
               timestamp = now\<rparr>) \<and>
   handleSearch now localeCompare backend symbols repoPath None ty =
     ([], Inr \<lparr>success = False, data = None, error = Some ''query parameter is required'',
               timestamp = now\<rparr>) \<and>
   http_status (snd (handleSearch now localeCompare backend symbols repoPath (Some '''') ty)) = 400"
proof -
  let ?all = "map (\<lambda>s. symbol_result s (if sym_name s = [] then 100 else 90)) symbols"
  have s: "searchSymbols symbols [] = ?all"
    by (rule searchSymbols_empty_query)
  have w: "fst (search localeCompare backend symbols repoPath [] ty) =
     (if ty = None \<or> ty = Some [] \<or> ty = Some ''symbol''
      then (if symbols = [] then [SymbolPass, TextPass] else [SymbolPass])
      else [TextPass])"
    by (auto simp: search_def s Let_def split: sum.splits)
  have r: "symbols \<noteq> [] \<and> (ty = None \<or> ty = Some [] \<or> ty = Some ''symbol'') \<longrightarrow>
      snd (search localeCompare backend symbols repoPath [] ty) = Inr (sortResults localeCompare ?all)"
    by (auto simp: search_def s Let_def)
  have e: "\<forall>e. snd (search localeCompare backend symbols repoPath [] ty) = Inl e \<longrightarrow>
      repoPath \<noteq> [] \<and> ripgrep backend repoPath [] = None \<and> grep backend repoPath [] = None"
    by (auto simp: search_def searchText_def Let_def split: sum.splits option.splits if_splits)
  have h: "handleSearch now localeCompare backend symbols repoPath (Some '''') ty =
     ([], Inr \<lparr>success = False, data = None, error = Some ''query parameter is required'',
               timestamp = now\<rparr>) \<and>
   handleSearch now localeCompare backend symbols repoPath None ty =
     ([], Inr \<lparr>success = False, data = None, error = Some ''query parameter is required'',
               timestamp = now\<rparr>) \<and>
   http_status (snd (handleSearch now localeCompare backend symbols repoPath (Some '''') ty)) = 400"
    by (simp add: handleSearch_def http_status_def)
  from s w r e h show ?thesis by blast
qed

text \<open>
  A symbol search with the empty query on a table of one module, with no repository
  path set; and a search on the empty table, where the failing text backend is asked.
\<close>

theorem search_empty_query_unchecked_witness:
  "snd (search (\<lambda>a b. 0) noq_backend [noq_symbol ''cpu'' ''c.v''] [] [] (Some ''symbol'')) =
     Inr [symbol_result (noq_symbol ''cpu'' ''c.v'') 90] \<and>
   fst (search (\<lambda>a b. 0) noq_backend [noq_symbol ''cpu'' ''c.v''] [] [] (Some ''symbol'')) = [SymbolPass] \<and>
   snd (search (\<lambda>a b. 0) noq_backend [] ''/rtl'' [] None) = Inl TextSearchFailed \<and>
   ripgrep noq_backend ''/rtl'' [] = None"
proof -
  note t = search_empty_query_unchecked [of "[noq_symbol ''cpu'' ''c.v'']" "\<lambda>a b. 0" noq_backend "[]" "Some ''symbol''" 0]
  note u = search_empty_query_unchecked [of "[]" "\<lambda>a b. 0" noq_backend "''/rtl''" None 0]
  have a: "snd (search (\<lambda>a b. 0) noq_backend [noq_symbol ''cpu'' ''c.v''] [] [] (Some ''symbol'')) =
     Inr [symbol_result (noq_symbol ''cpu'' ''c.v'') 90]"
    using t [THEN conjunct2, THEN conjunct2, THEN conjunct1]
    by (simp add: sortResults_def array_sort_def noq_symbol_def)
  have b: "fst (search (\<lambda>a b. 0) noq_backend [noq_symbol ''cpu'' ''c.v''] [] [] (Some ''symbol'')) = [SymbolPass]"
    using t [THEN conjunct2, THEN conjunct1] by simp
  have c: "snd (search (\<lambda>a b. 0) noq_backend [] ''/rtl'' [] None) = Inl TextSearchFailed"
    by (simp add: search_eval noq_backend_def)
  have d: "ripgrep noq_backend ''/rtl'' [] = None"
    using u [THEN conjunct2, THEN conjunct2, THEN conjunct2, THEN conjunct1, rule_format, OF c] by simp
  from a b c d show ?thesis by blast
qed


section \<open>Graph walks: critical path and module complexity\<close>

text \<open>
  The depth-first walks recurse without a static bound.  They are modelled with fuel for
  the recursion depth: a walk that runs out of fuel yields \<open>None\<close>.  A \<^verbatim>\<open>for\<close> loop whose
  body may fail is \<open>for_each\<close>.
\<close>

fun for_each :: "('a \<Rightarrow> 's \<Rightarrow> 's option) \<Rightarrow> 'a list \<Rightarrow> 's \<Rightarrow> 's option" where
  "for_each f [] s = Some s"
| "for_each f (x # xs) s = (case f x s of None \<Rightarrow> None | Some s' \<Rightarrow> for_each f xs s')"

definition getTopLevelModules :: "ModuleGraph \<Rightarrow> string list" where
  "getTopLevelModules g =
     filter (\<lambda>moduleName.
               case map_of (reverseEdges g) moduleName of
                 None \<Rightarrow> True
               | Some parents \<Rightarrow> parents = [])
            (map fst (nodes g))"

record CriticalPathState =
  visited :: "string set"
  currentPath :: "string list"
  longestPath :: "string list"

definition check_leaf :: "CriticalPathState \<Rightarrow> CriticalPathState" where
  "check_leaf st =
     (if length (currentPath st) > length (longestPath st)
      then st\<lparr>longestPath := currentPath st\<rparr> else st)"

fun cp_dfs ::
  "nat \<Rightarrow> (string \<times> string list) list \<Rightarrow> string \<Rightarrow> CriticalPathState \<Rightarrow> CriticalPathState option" where
  "cp_dfs 0 es m st = None"
| "cp_dfs (Suc fuel) es m st =
     (if m \<in> visited st then Some st
      else
        let st1 = st\<lparr>visited := insert m (visited st), currentPath := currentPath st @ [m]\<rparr>;
            r = (case map_of es m of
                   None \<Rightarrow> Some (check_leaf st1)
                 | Some children \<Rightarrow>
                     if children = [] then Some (check_leaf st1)
                     else for_each (cp_dfs fuel es) children st1)
        in map_option
             (\<lambda>st2. st2\<lparr>currentPath := butlast (currentPath st2), visited := visited st2 - {m}\<rparr>)
             r)"

definition getCriticalPath_fuel :: "nat \<Rightarrow> ModuleGraph \<Rightarrow> string list option" where
  "getCriticalPath_fuel fuel g =
     map_option longestPath
       (for_each (\<lambda>topModule st. cp_dfs fuel (edges g) topModule (st\<lparr>currentPath := []\<rparr>))
          (getTopLevelModules g)
          \<lparr>visited = {}, currentPath = [], longestPath = []\<rparr>)"

fun hd_dfs ::
  "nat \<Rightarrow> (string \<times> string list) list \<Rightarrow> string \<Rightarrow> string set \<Rightarrow> (nat \<times> string set) option" where
  "hd_dfs 0 es m vis = None"
| "hd_dfs (Suc fuel) es m vis =
     (if m \<in> vis then Some (0, vis)
      else
        let vis1 = insert m vis
        in case map_of es m of
             None \<Rightarrow> Some (1, vis1)
           | Some children \<Rightarrow>
               if children = [] then Some (1, vis1)
               else map_option (\<lambda>(maxDepth, v). (maxDepth + 1, v))
                      (for_each (\<lambda>child (maxDepth, v).
                                   map_option (\<lambda>(d, v'). (max maxDepth d, v')) (hd_dfs fuel es child v))
                         children (0, vis1)))"

definition calculateHierarchyDepth_fuel :: "nat \<Rightarrow> ModuleGraph \<Rightarrow> string \<Rightarrow> nat option" where
  "calculateHierarchyDepth_fuel fuel g moduleName = map_option fst (hd_dfs fuel (edges g) moduleName {})"

record ModuleComplexity =
  instanceCount :: nat
  portCount :: nat
  connectionCount :: nat
  hierarchyDepth :: nat

definition getModuleComplexity_fuel :: "nat \<Rightarrow> ModuleGraph \<Rightarrow> string \<Rightarrow> ModuleComplexity option" where
  "getModuleComplexity_fuel fuel g moduleName =
     (case map_of (nodes g) moduleName of
        None \<Rightarrow> Some \<lparr>instanceCount = 0, portCount = 0, connectionCount = 0, hierarchyDepth = 0\<rparr>
      | Some node \<Rightarrow>
          map_option
            (\<lambda>depth. \<lparr>instanceCount = length (instances node),
                       portCount = length (node_ports node),
                       connectionCount =
                         fold (\<lambda>inst sum. sum + length (connections inst)) (instances node) 0,
                       hierarchyDepth = depth\<rparr>)
            (calculateHierarchyDepth_fuel fuel g moduleName))"

text \<open>
  Every module name that occurs in the edge map; one more than their number bounds the
  recursion depth of both walks, which is the fuel the two operations run with.
\<close>

definition graph_names :: "(string \<times> string list) list \<Rightarrow> string list" where
  "graph_names es = concat (map (\<lambda>(k, children). k # children) es)"

definition getCriticalPath :: "ModuleGraph \<Rightarrow> string list option" where
  "getCriticalPath g = getCriticalPath_fuel (Suc (length (graph_names (edges g)))) g"

definition getModuleComplexity :: "ModuleGraph \<Rightarrow> string \<Rightarrow> ModuleComplexity option" where
  "getModuleComplexity g moduleName =
     getModuleComplexity_fuel (Suc (length (graph_names (edges g)))) g moduleName"

lemma for_each_invariant:
  assumes "P s" and "\<And>x s. x \<in> set xs \<Longrightarrow> P s \<Longrightarrow> \<exists>s'. f x s = Some s' \<and> P s'"
  shows "\<exists>s'. for_each f xs s = Some s' \<and> P s'"
  using assms
proof (induction xs arbitrary: s)
  case Nil
  then show ?case by simp
next
  case (Cons x xs)
  from Cons.prems(2) [of x s] Cons.prems(1) obtain s1 where s1: "f x s = Some s1" "P s1"
    by auto
  have "\<exists>s'. for_each f xs s1 = Some s' \<and> P s'"
  proof (rule Cons.IH [OF s1(2)])
    fix y t assume "y \<in> set xs" "P t"
    then show "\<exists>s'. f y t = Some s' \<and> P s'"
      using Cons.prems(2) [of y t] by simp
  qed
  with s1(1) show ?case by simp
qed

lemma for_each_mono:
  assumes "for_each f xs s = Some r" and "\<And>x s r. x \<in> set xs \<Longrightarrow> f x s = Some r \<Longrightarrow> g x s = Some r"
  shows "for_each g xs s = Some r"
  using assms
proof (induction xs arbitrary: s)
  case Nil
  then show ?case by simp
next
  case (Cons x xs)
  from Cons.prems(1) obtain s1 where s1: "f x s = Some s1" "for_each f xs s1 = Some r"
    by (cases "f x s") simp_all
  have "for_each g xs s1 = Some r"
  proof (rule Cons.IH [OF s1(2)])
    fix y t u assume "y \<in> set xs" "f y t = Some u"
    then show "g y t = Some u" using Cons.prems(2) [of y t u] by simp
  qed
  moreover have "g x s = Some s1" using Cons.prems(2) [of x s s1] s1(1) by simp
  ultimately show ?case by simp
qed

lemma children_in_names:
  "map_of es m = Some children \<Longrightarrow> m \<in> set (graph_names es) \<and> set children \<subseteq> set (graph_names es)"
  by (drule map_of_SomeD) (force simp: graph_names_def)

lemma card_diff_insert_less:
  assumes "finite U" "m \<in> U" "m \<notin> V" "card (U - V) < Suc n"
  shows "card (U - insert m V) < n"
proof -
  have "U - insert m V = (U - V) - {m}" by blast
  moreover have "m \<in> U - V" using assms by simp
  moreover have "finite (U - V)" using assms by simp
  ultimately have "card (U - insert m V) = card (U - V) - 1" by simp
  moreover have "0 < card (U - V)"
    using \<open>m \<in> U - V\<close> \<open>finite (U - V)\<close> by (auto simp: card_gt_0_iff)
  ultimately show ?thesis using assms(4) by linarith
qed

lemma cp_dfs_total:
  assumes "card (set (graph_names es) - visited st) < n"
  shows "\<exists>st'. cp_dfs n es m st = Some st' \<and> visited st' = visited st"
  using assms
proof (induction n arbitrary: m st)
  case 0
  then show ?case by simp
next
  case (Suc n)
  let ?U = "set (graph_names es)"
  show ?case
  proof (cases "m \<in> visited st")
    case True
    then show ?thesis by simp
  next
    case False
    let ?st1 = "st\<lparr>visited := insert m (visited st), currentPath := currentPath st @ [m]\<rparr>"
    let ?pop = "\<lambda>st2. st2\<lparr>currentPath := butlast (currentPath st2), visited := visited st2 - {m}\<rparr>"
    have leaf: "visited (?pop (check_leaf ?st1)) = visited st"
      using False by (simp add: check_leaf_def)
    show ?thesis
    proof (cases "map_of es m")
      case None
      with False leaf show ?thesis by (simp add: Let_def)
    next
      case (Some children)
      show ?thesis
      proof (cases "children = []")
        case True
        with False Some leaf show ?thesis by (simp add: Let_def)
      next
        case ne: False
        from children_in_names [OF Some] have mU: "m \<in> ?U" and cU: "set children \<subseteq> ?U"
          by simp_all
        have less: "card (?U - insert m (visited st)) < n"
          using Suc.prems False mU by (intro card_diff_insert_less) simp_all
        have "\<exists>s'. for_each (cp_dfs n es) children ?st1 = Some s' \<and>
            visited s' = insert m (visited st)"
        proof (rule for_each_invariant [where P = "\<lambda>s. visited s = insert m (visited st)"])
          show "visited ?st1 = insert m (visited st)" by simp
        next
          fix c and s :: CriticalPathState
          assume "c \<in> set children" and v: "visited s = insert m (visited st)"
          have "card (?U - visited s) < n" using less v by simp
          from Suc.IH [OF this, of c] v
          show "\<exists>s'. cp_dfs n es c s = Some s' \<and> visited s' = insert m (visited st)"
            by auto
        qed
        then obtain s' where s': "for_each (cp_dfs n es) children ?st1 = Some s'"
          "visited s' = insert m (visited st)" by blast
        have "cp_dfs (Suc n) es m st = Some (?pop s')"
          using False Some ne s'(1) by (simp add: Let_def)
        moreover have "visited (?pop s') = visited st"
          using s'(2) False by simp
        ultimately show ?thesis by blast
      qed
    qed
  qed
qed

lemma cp_dfs_Suc: "cp_dfs n es m st = Some r \<Longrightarrow> cp_dfs (Suc n) es m st = Some r"
proof (induction n arbitrary: m st r)
  case 0
  then show ?case by simp
next
  case (Suc n)
  show ?case
  proof (cases "m \<in> visited st")
    case True
    with Suc.prems show ?thesis by simp
  next
    case False
    let ?st1 = "st\<lparr>visited := insert m (visited st), currentPath := currentPath st @ [m]\<rparr>"
    show ?thesis
    proof (cases "map_of es m")
      case None
      with False Suc.prems show ?thesis by (simp add: Let_def)
    next
      case (Some children)
      show ?thesis
      proof (cases "children = []")
        case True
        with False Some Suc.prems show ?thesis by (simp add: Let_def)
      next
        case ne: False
        from Suc.prems False Some ne obtain s' where
          s': "for_each (cp_dfs n es) children ?st1 = Some s'" and
          r: "r = s'\<lparr>currentPath := butlast (currentPath s'), visited := visited s' - {m}\<rparr>"
          by (auto simp: Let_def)
        have "for_each (cp_dfs (Suc n) es) children ?st1 = Some s'"
          using s' by (rule for_each_mono) (rule Suc.IH)
        with False Some ne r show ?thesis
          by (simp add: Let_def del: cp_dfs.simps) (simp add: Let_def)
      qed
    qed
  qed
qed


lemma cp_dfs_fuel_mono:
  assumes "cp_dfs n es m st = Some r" and "n \<le> n'"
  shows "cp_dfs n' es m st = Some r"
  using assms(2)
proof (induction rule: dec_induct)
  case base
  show ?case by (rule assms(1))
next
  case (step k)
  then show ?case by (intro cp_dfs_Suc)
qed

lemma hd_dfs_total:
  assumes "card (set (graph_names es) - vis) < n"
  shows "\<exists>d vis'. hd_dfs n es m vis = Some (d, vis') \<and> vis \<subseteq> vis'"
  using assms
proof (induction n arbitrary: m vis)
  case 0
  then show ?case by simp
next
  case (Suc n)
  let ?U = "set (graph_names es)"
  show ?case
  proof (cases "m \<in> vis")
    case True
    then show ?thesis by simp
  next
    case False
    show ?thesis
    proof (cases "map_of es m")
      case None
      with False show ?thesis by (auto simp: Let_def)
    next
      case (Some children)
      show ?thesis
      proof (cases "children = []")
        case True
        with False Some show ?thesis by (auto simp: Let_def)
      next
        case ne: False
        let ?body = "\<lambda>child (maxDepth, v).
            map_option (\<lambda>(d, v'). (max maxDepth d, v')) (hd_dfs n es child v)"
        from children_in_names [OF Some] have mU: "m \<in> ?U" by simp
        have less: "card (?U - insert m vis) < n"
          using Suc.prems False mU by (intro card_diff_insert_less) simp_all
        have "\<exists>s'. for_each ?body children (0, insert m vis) = Some s' \<and> insert m vis \<subseteq> snd s'"
        proof (rule for_each_invariant [where P = "\<lambda>s. insert m vis \<subseteq> snd s"])
          show "insert m vis \<subseteq> snd (0::nat, insert m vis)" by simp
        next
          fix c and s :: "nat \<times> string set"
          assume "c \<in> set children" and v: "insert m vis \<subseteq> snd s"
          obtain md v' where s: "s = (md, v')" by (cases s)
          have "?U - v' \<subseteq> ?U - insert m vis" using v s by auto
          then have "card (?U - v') \<le> card (?U - insert m vis)"
            by (intro card_mono) simp_all
          with less have "card (?U - v') < n" by simp
          from Suc.IH [OF this, of c] obtain d v'' where
            "hd_dfs n es c v' = Some (d, v'')" "v' \<subseteq> v''" by blast
          with v s show "\<exists>s'. ?body c s = Some s' \<and> insert m vis \<subseteq> snd s'"
            by auto
        qed
        then obtain md v' where s': "for_each ?body children (0, insert m vis) = Some (md, v')"
          "insert m vis \<subseteq> v'" by force
        have "hd_dfs (Suc n) es m vis = Some (md + 1, v')"
          using False Some ne s'(1) by (simp add: Let_def)
        moreover have "vis \<subseteq> v'" using s'(2) by auto
        ultimately show ?thesis by blast
      qed
    qed
  qed
qed

lemma hd_dfs_Suc: "hd_dfs n es m vis = Some r \<Longrightarrow> hd_dfs (Suc n) es m vis = Some r"
proof (induction n arbitrary: m vis r)
  case 0
  then show ?case by simp
next
  case (Suc n)
  show ?case
  proof (cases "m \<in> vis")
    case True
    with Suc.prems show ?thesis by simp
  next
    case False
    show ?thesis
    proof (cases "map_of es m")
      case None
      with False Suc.prems show ?thesis by (simp add: Let_def)
    next
      case (Some children)
      show ?thesis
      proof (cases "children = []")
        case True
        with False Some Suc.prems show ?thesis by (simp add: Let_def)
      next
        case ne: False
        let ?body = "\<lambda>k child (maxDepth, v).
            map_option (\<lambda>(d, v'). (max maxDepth d, v')) (hd_dfs k es child v)"
        from Suc.prems False Some ne obtain s' where
          s': "for_each (?body n) children (0, insert m vis) = Some s'" and
          r: "r = (case s' of (maxDepth, v) \<Rightarrow> (maxDepth + 1, v))"
          by (auto simp: Let_def)
        have "for_each (?body (Suc n)) children (0, insert m vis) = Some s'"
          using s'
        proof (rule for_each_mono)
          fix c and t u :: "nat \<times> string set"
          assume "?body n c t = Some u"
          then show "?body (Suc n) c t = Some u"
            by (cases t) (auto simp del: hd_dfs.simps dest!: Suc.IH)
        qed
        with False Some ne r show ?thesis
          by (simp add: Let_def del: hd_dfs.simps) (simp add: Let_def)
      qed
    qed
  qed
qed

lemma hd_dfs_fuel_mono:
  assumes "hd_dfs n es m vis = Some r" and "n \<le> n'"
  shows "hd_dfs n' es m vis = Some r"
  using assms(2)
proof (induction rule: dec_induct)
  case base
  show ?case by (rule assms(1))
next
  case (step k)
  then show ?case by (intro hd_dfs_Suc)
qed

lemma card_names_less: "card (set (graph_names es) - V) < Suc (length (graph_names es))"
proof -
  have "card (set (graph_names es) - V) \<le> card (set (graph_names es))"
    by (intro card_mono) auto
  also have "\<dots> \<le> length (graph_names es)" by (rule card_length)
  finally show ?thesis by simp
qed

lemma getCriticalPath_total: "\<exists>p. getCriticalPath g = Some p"
proof -
  let ?n = "Suc (length (graph_names (edges g)))"
  have "\<exists>s'. for_each (\<lambda>topModule st. cp_dfs ?n (edges g) topModule (st\<lparr>currentPath := []\<rparr>))
          (getTopLevelModules g) \<lparr>visited = {}, currentPath = [], longestPath = []\<rparr> = Some s' \<and>
        visited s' = {}"
  proof (rule for_each_invariant [where P = "\<lambda>s. visited s = {}"])
    show "visited \<lparr>visited = {}, currentPath = [], longestPath = []\<rparr> = {}" by simp
  next
    fix t and s :: CriticalPathState
    assume "visited s = {}"
    with cp_dfs_total [of "edges g" "s\<lparr>currentPath := []\<rparr>" ?n t] card_names_less [of "edges g" "{}"]
    show "\<exists>s'. cp_dfs ?n (edges g) t (s\<lparr>currentPath := []\<rparr>) = Some s' \<and> visited s' = {}"
      by (simp del: cp_dfs.simps)
  qed
  then show ?thesis
    by (auto simp: getCriticalPath_def getCriticalPath_fuel_def simp del: cp_dfs.simps)
qed

lemma getCriticalPath_fuel_mono:
  assumes "getCriticalPath_fuel n g = Some p" and "n \<le> n'"
  shows "getCriticalPath_fuel n' g = Some p"
proof -
  let ?f = "\<lambda>k topModule st. cp_dfs k (edges g) topModule (st\<lparr>currentPath := []\<rparr>)"
  let ?init = "\<lparr>visited = {}, currentPath = [], longestPath = []\<rparr>"
  from assms(1) obtain s where s: "for_each (?f n) (getTopLevelModules g) ?init = Some s"
    and p: "p = longestPath s"
    by (auto simp: getCriticalPath_fuel_def)
  have "for_each (?f n') (getTopLevelModules g) ?init = Some s"
    using s by (rule for_each_mono) (rule cp_dfs_fuel_mono [OF _ assms(2)])
  with p show ?thesis by (simp add: getCriticalPath_fuel_def)
qed

lemma getModuleComplexity_total: "\<exists>c. getModuleComplexity g name = Some c"
proof (cases "map_of (nodes g) name")
  case None
  then show ?thesis by (simp add: getModuleComplexity_def getModuleComplexity_fuel_def)
next
  case (Some node)
  from hd_dfs_total [where es = "edges g" and vis = "{}" and m = name, OF card_names_less]
  obtain d v where "hd_dfs (Suc (length (graph_names (edges g)))) (edges g) name {} = Some (d, v)"
    by blast
  with Some show ?thesis
    by (simp add: getModuleComplexity_def getModuleComplexity_fuel_def
        calculateHierarchyDepth_fuel_def del: hd_dfs.simps)
qed

lemma getModuleComplexity_fuel_mono:
  assumes "getModuleComplexity_fuel n g name = Some c" and "n \<le> n'"
  shows "getModuleComplexity_fuel n' g name = Some c"
proof (cases "map_of (nodes g) name")
  case None
  with assms(1) show ?thesis by (simp add: getModuleComplexity_fuel_def)
next
  case (Some node)
  with assms(1) obtain r where r: "hd_dfs n (edges g) name {} = Some r"
    by (auto simp: getModuleComplexity_fuel_def calculateHierarchyDepth_fuel_def)
  from hd_dfs_fuel_mono [OF r assms(2)] r assms(1) Some show ?thesis
    by (simp add: getModuleComplexity_fuel_def calculateHierarchyDepth_fuel_def del: hd_dfs.simps)
qed

definition cyc_modules :: "ModuleInfo list" where
  "cyc_modules =
     [\<lparr>mi_name = ''A'', filePath = ''/rtl/a.v'', mi_startLine = 0, mi_endLine = 4, mi_ports = []\<rparr>,
      \<lparr>mi_name = ''B'', filePath = ''/rtl/b.v'', mi_startLine = 0, mi_endLine = 4, mi_ports = []\<rparr>]"

definition cyc_insts :: "InstanceInfo list" where
  "cyc_insts =
     [\<lparr>inst_name = ''u_b'', moduleType = ''B'', connections = [], inst_file = ''/rtl/a.v'', inst_line = 2\<rparr>,
      \<lparr>inst_name = ''u_a'', moduleType = ''A'', connections = [], inst_file = ''/rtl/b.v'', inst_line = 2\<rparr>]"

lemma cyc_graph:
  "edges (buildGraph cyc_modules cyc_insts) = [(''A'', [''B'']), (''B'', [''A''])]"
  "reverseEdges (buildGraph cyc_modules cyc_insts) = [(''B'', [''A'']), (''A'', [''B''])]"
  "map fst (nodes (buildGraph cyc_modules cyc_insts)) = [''A'', ''B'']"
  by (simp_all add: cyc_modules_def cyc_insts_def graph_eval)

lemma cyc_cp: "getCriticalPath (buildGraph cyc_modules cyc_insts) = Some []"
  by (simp add: getCriticalPath_def getCriticalPath_fuel_def getTopLevelModules_def cyc_graph)

lemma cyc_complexity:
  "getModuleComplexity (buildGraph cyc_modules cyc_insts) ''A'' =
     Some \<lparr>instanceCount = 1, portCount = 0, connectionCount = 0, hierarchyDepth = 2\<rparr>"
proof -
  have "map_of (nodes (buildGraph cyc_modules cyc_insts)) ''A'' =
      Some \<lparr>node_id = ''A'', node_name = ''A'', node_file = ''/rtl/a.v'', node_ports = [],
        node_parameters = [], instances = [hd cyc_insts]\<rparr>"
    by (simp add: cyc_modules_def cyc_insts_def graph_eval)
  moreover have "hd_dfs (Suc (length (graph_names (edges (buildGraph cyc_modules cyc_insts)))))
      (edges (buildGraph cyc_modules cyc_insts)) ''A'' {} = Some (2, {''A'', ''B''})"
    by (simp add: cyc_graph graph_names_def) auto
  ultimately show ?thesis
    by (simp add: getModuleComplexity_def getModuleComplexity_fuel_def
        calculateHierarchyDepth_fuel_def cyc_insts_def del: hd_dfs.simps)
qed

text \<open>
  C7. On every graph that \<open>buildGraph\<close> returns, \<open>getCriticalPath\<close> and
  \<open>getModuleComplexity\<close> (for any module name) return a result, and every greater amount
  of fuel gives the same result: the walks do not depend on the bound they are run with.
  This includes a graph in which \<open>A\<close> instantiates \<open>B\<close> and \<open>B\<close> instantiates \<open>A\<close>.
\<close>

theorem graph_walks_terminate:
  "\<exists>p c. getCriticalPath (buildGraph modules insts) = Some p \<and>
     getModuleComplexity (buildGraph modules insts) name = Some c \<and>
     (\<forall>fuel. Suc (length (graph_names (edges (buildGraph modules insts)))) \<le> fuel \<longrightarrow>
        getCriticalPath_fuel fuel (buildGraph modules insts) = Some p \<and>
        getModuleComplexity_fuel fuel (buildGraph modules insts) name = Some c)"
proof -
  let ?g = "buildGraph modules insts"
  obtain p where p: "getCriticalPath ?g = Some p"
    using getCriticalPath_total by blast
  obtain c where c: "getModuleComplexity ?g name = Some c"
    using getModuleComplexity_total by blast
  have "getCriticalPath_fuel fuel ?g = Some p \<and> getModuleComplexity_fuel fuel ?g name = Some c"
    if "Suc (length (graph_names (edges ?g))) \<le> fuel" for fuel
    using getCriticalPath_fuel_mono [OF p [unfolded getCriticalPath_def] that]
      getModuleComplexity_fuel_mono [OF c [unfolded getModuleComplexity_def] that]
    by simp
  with p c show ?thesis by blast
qed

text \<open>The cyclic graph: no module is top-level, so the critical path is empty; the
  hierarchy depth of \<open>A\<close> counts \<open>A\<close> and \<open>B\<close> once each.\<close>

theorem graph_walks_terminate_witness:
  "getCriticalPath (buildGraph cyc_modules cyc_insts) = Some [] \<and>
   getModuleComplexity (buildGraph cyc_modules cyc_insts) ''A'' =
     Some \<lparr>instanceCount = 1, portCount = 0, connectionCount = 0, hierarchyDepth = 2\<rparr> \<and>
   getCriticalPath_fuel 1000 (buildGraph cyc_modules cyc_insts) = Some [] \<and>
   getModuleComplexity_fuel 1000 (buildGraph cyc_modules cyc_insts) ''A'' =
     Some \<lparr>instanceCount = 1, portCount = 0, connectionCount = 0, hierarchyDepth = 2\<rparr>"
proof -
  from graph_walks_terminate [of cyc_modules cyc_insts "''A''"] obtain p c where
    "getCriticalPath (buildGraph cyc_modules cyc_insts) = Some p"
    "getModuleComplexity (buildGraph cyc_modules cyc_insts) ''A'' = Some c"
    "\<forall>fuel. Suc (length (graph_names (edges (buildGraph cyc_modules cyc_insts)))) \<le> fuel \<longrightarrow>
        getCriticalPath_fuel fuel (buildGraph cyc_modules cyc_insts) = Some p \<and>
        getModuleComplexity_fuel fuel (buildGraph cyc_modules cyc_insts) ''A'' = Some c"
    by blast
  moreover have "Suc (length (graph_names (edges (buildGraph cyc_modules cyc_insts)))) \<le> 1000"
    by (simp add: cyc_graph graph_names_def)
  ultimately show ?thesis
    using cyc_cp cyc_complexity by auto
qed



section \<open>Symbol indexer (symbolIndexer.ts)\<close>

subsection \<open>Node's path functions and number formatting\<close>

text \<open>
  File paths are POSIX paths.  \<^verbatim>\<open>path.resolve(p)\<close> prefixes a relative path with the
  working directory of the process, which is a parameter, and normalises the result:
  empty segments and \<^verbatim>\<open>.\<close> are dropped, \<^verbatim>\<open>..\<close> removes the segment before it.
\<close>

fun split_on :: "char \<Rightarrow> string \<Rightarrow> string list" where
  "split_on sep [] = [[]]"
| "split_on sep (c # cs) =
     (if c = sep then [] # split_on sep cs
      else case split_on sep cs of
             [] \<Rightarrow> [[c]]
           | seg # segs \<Rightarrow> (c # seg) # segs)"

definition normalize_step :: "string \<Rightarrow> string list \<Rightarrow> string list" where
  "normalize_step seg stack =
     (if seg = [] \<or> seg = ''.'' then stack
      else if seg = ''..'' then butlast stack
      else stack @ [seg])"

fun join_with :: "string \<Rightarrow> string list \<Rightarrow> string" where
  "join_with sep [] = []"
| "join_with sep [s] = s"
| "join_with sep (s # t # ts) = s @ sep @ join_with sep (t # ts)"

definition resolve :: "string \<Rightarrow> string \<Rightarrow> string" where
  "resolve cwd p =
     (let full = (if p \<noteq> [] \<and> hd p = CHR ''/'' then p
                  else if p = [] then cwd else cwd @ ''/'' @ p)
      in ''/'' @ join_with ''/'' (fold normalize_step (split_on CHR ''/'' full) []))"

definition basename :: "string \<Rightarrow> string" where
  "basename p =
     rev (takeWhile (\<lambda>c. c \<noteq> CHR ''/'') (dropWhile (\<lambda>c. c = CHR ''/'') (rev p)))"

definition dirname :: "string \<Rightarrow> string" where
  "dirname p =
     (if p = [] then ''.''
      else
        let hasRoot = (hd p = CHR ''/'');
            rest = dropWhile (\<lambda>c. c \<noteq> CHR ''/'') (dropWhile (\<lambda>c. c = CHR ''/'') (rev (tl p)));
            end = length rest
        in if rest = [] then (if hasRoot then ''/'' else ''.'')
           else if hasRoot \<and> end = 1 then ''//''
           else take end p)"

fun show_nat :: "nat \<Rightarrow> string" where
  "show_nat n =
     (if n < 10 then [''0123456789'' ! n]
      else show_nat (n div 10) @ [''0123456789'' ! (n mod 10)])"

declare show_nat.simps [simp del]

definition show_int :: "int \<Rightarrow> string" where
  "show_int i = (if i < 0 then ''-'' @ show_nat (nat (- i)) else show_nat (nat i))"

text \<open>
  \<^verbatim>\<open>computeHash\<close>: \<^verbatim>\<open>hash = (hash << 5) - hash + char; hash = hash & hash\<close> keeps a signed
  32-bit value, printed in decimal.
\<close>

definition computeHash :: "string \<Rightarrow> string" where
  "computeHash input =
     show_int (sint (fold (\<lambda>c (h :: 32 word). push_bit 5 h - h + of_nat (of_char c)) input 0))"

definition generateSymbolId :: "string \<Rightarrow> string \<Rightarrow> nat \<Rightarrow> string" where
  "generateSymbolId filePath' name line = basename filePath' @ '':'' @ name @ '':'' @ show_nat line"

subsection \<open>Regular-expression extraction (indexSingleFile)\<close>

text \<open>
  File contents are ASCII text.  The six patterns use only the constructs below; a
  match attempt at a position yields the end positions (with the text of capture group 1)
  in the backtracking order of the JavaScript matcher, so the first one is the match
  that \<^verbatim>\<open>exec\<close> reports.
\<close>

datatype cclass = Space | Word | AnyChar

definition in_class :: "cclass \<Rightarrow> char \<Rightarrow> bool" where
  "in_class k c =
     (case k of
        Space \<Rightarrow> c \<in> set [CHR 0x09, CHR 0x0A, CHR 0x0B, CHR 0x0C, CHR 0x0D, CHR '' '']
      | Word \<Rightarrow> c \<in> set ''abcdefghijklmnopqrstuvwxyzABCDEFGHIJKLMNOPQRSTUVWXYZ0123456789_''
      | AnyChar \<Rightarrow> c \<noteq> CHR 0x0A \<and> c \<noteq> CHR 0x0D)"

datatype regex =
    Bol
  | Lit string
  | Star cclass
  | Plus cclass
  | LazyStar cclass
  | Alt regex regex
  | Opt regex
  | Seq regex regex
  | Cap regex

type_synonym mstate = "nat \<times> string option"

fun rmatch :: "regex \<Rightarrow> string \<Rightarrow> mstate \<Rightarrow> mstate list" where
  "rmatch Bol s (i, cap) =
     (if i = 0 \<or> s ! (i - 1) = CHR 0x0A \<or> s ! (i - 1) = CHR 0x0D then [(i, cap)] else [])"
| "rmatch (Lit l) s (i, cap) =
     (if take (length l) (drop i s) = l then [(i + length l, cap)] else [])"
| "rmatch (Star k) s (i, cap) =
     map (\<lambda>n. (i + n, cap)) (rev [0..<Suc (length (takeWhile (in_class k) (drop i s)))])"
| "rmatch (Plus k) s (i, cap) =
     map (\<lambda>n. (i + n, cap)) (rev [1..<Suc (length (takeWhile (in_class k) (drop i s)))])"
| "rmatch (LazyStar k) s (i, cap) =
     map (\<lambda>n. (i + n, cap)) [0..<Suc (length (takeWhile (in_class k) (drop i s)))]"
| "rmatch (Alt r1 r2) s st = rmatch r1 s st @ rmatch r2 s st"
| "rmatch (Opt r) s st = rmatch r s st @ [st]"
| "rmatch (Seq r1 r2) s st = concat (map (rmatch r2 s) (rmatch r1 s st))"
| "rmatch (Cap r) s (i, cap) =
     map (\<lambda>(e, c). (e, Some (take (e - i) (drop i s)))) (rmatch r s (i, cap))"

fun seqs :: "regex list \<Rightarrow> regex" where
  "seqs [] = Lit []"
| "seqs [r] = r"
| "seqs (r # rs) = Seq r (seqs rs)"

definition patterns :: "(regex \<times> string) list" where
  "patterns =
     [(seqs [Bol, Star Space, Lit ''module'', Plus Space, Cap (Plus Word)], ''module''),
      (seqs [Bol, Star Space, Lit ''function'', Plus Space,
             Opt (Seq (Plus Word) (Plus Space)), Cap (Plus Word)], ''function''),
      (seqs [Bol, Star Space, Lit ''task'', Plus Space, Cap (Plus Word)], ''task''),
      (seqs [Bol, Star Space, Alt (Lit ''input'') (Alt (Lit ''output'') (Lit ''inout'')),
             Plus Space, Opt (Seq (Plus Word) (Plus Space)), Cap (Plus Word)], ''port''),
      (seqs [Bol, Star Space, Alt (Lit ''wire'') (Alt (Lit ''reg'') (Lit ''logic'')),
             Plus Space,
             Opt (seqs [Lit ''['', LazyStar AnyChar, Lit '']'', Plus Space]),
             Cap (Plus Word)], ''signal''),
      (seqs [Bol, Star Space, Cap (Plus Word), Plus Space,
             Opt (seqs [Lit ''#('', LazyStar AnyChar, Lit '')'', Plus Space]),
             Plus Word, Star Space, Lit ''(''], ''instance'')]"

text \<open>
  \<^verbatim>\<open>regex.exec(content)\<close> from \<^verbatim>\<open>lastIndex\<close>: the first position at or after it where the
  pattern matches, with the end of the match and capture group 1.
\<close>

function exec_from :: "regex \<Rightarrow> string \<Rightarrow> nat \<Rightarrow> (nat \<times> nat \<times> string) option" where
  "exec_from r s i =
     (if length s < i then None
      else case rmatch r s (i, None) of
             (e, cap) # rest \<Rightarrow> Some (i, e, (case cap of None \<Rightarrow> [] | Some n \<Rightarrow> n))
           | [] \<Rightarrow> exec_from r s (Suc i))"
  by pat_completeness auto
termination
  by (relation "measure (\<lambda>(r, s, i). Suc (length s) - i)") auto

declare exec_from.simps [simp del]

text \<open>
  The loop \<^verbatim>\<open>while ((match = pattern.regex.exec(content)) !== null)\<close>.  Every pattern
  needs at least one character, so \<^verbatim>\<open>lastIndex\<close> grows with each match; a match that
  did not advance would repeat forever in the source and ends the loop here.
\<close>

function match_all :: "regex \<Rightarrow> string \<Rightarrow> nat \<Rightarrow> (nat \<times> string) list" where
  "match_all r s lastIndex =
     (case exec_from r s lastIndex of
        None \<Rightarrow> []
      | Some (index, e, name) \<Rightarrow>
          (index, name) # (if lastIndex < e \<and> e \<le> length s then match_all r s e else []))"
  by pat_completeness auto
termination
  by (relation "measure (\<lambda>(r, s, i). Suc (length s) - i)") auto

declare match_all.simps [simp del]

definition lineNumber :: "string \<Rightarrow> nat \<Rightarrow> nat" where
  "lineNumber content index = length (filter (\<lambda>c. c = CHR 0x0A) (take index content))"

definition extractSymbols :: "string \<Rightarrow> (string \<times> string \<times> nat) list" where
  "extractSymbols content =
     concat (map (\<lambda>(r, k). map (\<lambda>(index, name). (name, k, lineNumber content index))
                              (match_all r content 0)) patterns)"

subsection \<open>Every match of the six patterns is non-empty\<close>

fun min_len :: "regex \<Rightarrow> nat" where
  "min_len Bol = 0"
| "min_len (Lit l) = length l"
| "min_len (Star k) = 0"
| "min_len (Plus k) = 1"
| "min_len (LazyStar k) = 0"
| "min_len (Alt r1 r2) = min (min_len r1) (min_len r2)"
| "min_len (Opt r) = 0"
| "min_len (Seq r1 r2) = min_len r1 + min_len r2"
| "min_len (Cap r) = min_len r"

lemma rmatch_bounds:
  "(e, c) \<in> set (rmatch r s (i, cap)) \<Longrightarrow> i \<le> length s \<Longrightarrow> i + min_len r \<le> e \<and> e \<le> length s"
proof (induction r arbitrary: i cap e c)
  case Bol
  then show ?case by (auto split: if_splits)
next
  case (Lit l)
  then have "take (length l) (drop i s) = l" "e = i + length l" by (auto split: if_splits)
  then have "length l \<le> length s - i"
  proof -
    assume "take (length l) (drop i s) = l"
    then have "length (take (length l) (drop i s)) = length l" by simp
    then show ?thesis by simp
  qed
  with Lit \<open>e = i + length l\<close> show ?case by simp
next
  case (Star k)
  have "length (takeWhile (in_class k) (drop i s)) \<le> length s - i"
    using length_takeWhile_le [of "in_class k" "drop i s"] by simp
  with Star show ?case by auto
next
  case (Plus k)
  have "length (takeWhile (in_class k) (drop i s)) \<le> length s - i"
    using length_takeWhile_le [of "in_class k" "drop i s"] by simp
  with Plus show ?case by auto
next
  case (LazyStar k)
  have "length (takeWhile (in_class k) (drop i s)) \<le> length s - i"
    using length_takeWhile_le [of "in_class k" "drop i s"] by simp
  with LazyStar show ?case by auto
next
  case (Alt r1 r2)
  from Alt.prems(1) consider "(e, c) \<in> set (rmatch r1 s (i, cap))" | "(e, c) \<in> set (rmatch r2 s (i, cap))"
    by auto
  then show ?case
  proof cases
    case 1
    from Alt.IH(1) [OF this Alt.prems(2)] show ?thesis by (simp add: min_def)
  next
    case 2
    from Alt.IH(2) [OF this Alt.prems(2)] show ?thesis by (simp add: min_def)
  qed
next
  case (Opt r)
  from Opt.prems(1) consider "(e, c) \<in> set (rmatch r s (i, cap))" | "e = i" by auto
  then show ?case
  proof cases
    case 1
    from Opt.IH [OF this Opt.prems(2)] show ?thesis by simp
  next
    case 2
    with Opt.prems(2) show ?thesis by simp
  qed
next
  case (Seq r1 r2)
  from Seq.prems(1) obtain m cm where
    m: "(m, cm) \<in> set (rmatch r1 s (i, cap))" "(e, c) \<in> set (rmatch r2 s (m, cm))"
    by auto
  from Seq.IH(1) [OF m(1) Seq.prems(2)] have 1: "i + min_len r1 \<le> m" "m \<le> length s" by simp_all
  from Seq.IH(2) [OF m(2) 1(2)] 1(1) show ?case by simp
next
  case (Cap r)
  from Cap.prems(1) obtain c' where "(e, c') \<in> set (rmatch r s (i, cap))" by auto
  from Cap.IH [OF this Cap.prems(2)] show ?case by simp
qed

lemma patterns_min_len: "(r, k) \<in> set patterns \<Longrightarrow> 0 < min_len r"
  by (auto simp: patterns_def)

lemma exec_from_bounds:
  "exec_from r s i = Some (index, e, name) \<Longrightarrow> i \<le> index \<and> index + min_len r \<le> e \<and> e \<le> length s"
proof (induction r s i rule: exec_from.induct)
  case (1 r s i)
  show ?case
  proof (cases "length s < i")
    case True
    with "1.prems" show ?thesis by (simp add: exec_from.simps)
  next
    case le: False
    show ?thesis
    proof (cases "rmatch r s (i, None)")
      case Nil
      with le "1.prems" have "exec_from r s (Suc i) = Some (index, e, name)"
        by (simp add: exec_from.simps [of r s i])
      from "1.IH" [OF le Nil this] show ?thesis by simp
    next
      case (Cons m ms)
      obtain e' c' where m: "m = (e', c')" by (cases m)
      with le Cons "1.prems" have eq: "index = i" "e = e'"
        by (simp_all add: exec_from.simps [of r s i])
      have "(e', c') \<in> set (rmatch r s (i, None))" by (simp add: Cons m)
      from rmatch_bounds [OF this] le eq show ?thesis by simp
    qed
  qed
qed

text \<open>For the six patterns the loop continues after every match, as in the source.\<close>

lemma match_all_patterns:
  assumes "(r, k) \<in> set patterns"
  shows "match_all r s lastIndex =
     (case exec_from r s lastIndex of
        None \<Rightarrow> []
      | Some (index, e, name) \<Rightarrow> (index, name) # match_all r s e)"
proof (cases "exec_from r s lastIndex")
  case None
  then show ?thesis by (simp add: match_all.simps [of r s lastIndex])
next
  case (Some m)
  obtain index e name where m: "m = (index, e, name)" by (cases m)
  from exec_from_bounds [OF Some [unfolded m]] patterns_min_len [OF assms]
  have "lastIndex < e \<and> e \<le> length s" by simp
  with Some m show ?thesis by (simp add: match_all.simps [of r s lastIndex])
qed

subsection \<open>The symbol table (symbolIndexer.ts)\<close>

record SymbolIndexer =
  symbols :: "(string \<times> Symbol) list"
  nameIndex :: "(string \<times> string list) list"
  pathIndex :: "(string \<times> string list) list"

definition empty_index :: SymbolIndexer where
  "empty_index = \<lparr>symbols = [], nameIndex = [], pathIndex = []\<rparr>"

definition addSymbol :: "Symbol \<Rightarrow> SymbolIndexer \<Rightarrow> SymbolIndexer" where
  "addSymbol sy st =
     st\<lparr>symbols := AList.update (sym_id sy) sy (symbols st),
        nameIndex := map_set_add (sym_name sy) (sym_id sy) (nameIndex st),
        pathIndex := map_set_add (sym_path sy) (sym_id sy) (pathIndex st)\<rparr>"

text \<open>
  \<^verbatim>\<open>const set = index.get(key); if (set) { set.delete(id); if (set.size === 0)
  index.delete(key); }\<close>
\<close>

definition map_set_delete :: "'k \<Rightarrow> 'a \<Rightarrow> ('k \<times> 'a list) list \<Rightarrow> ('k \<times> 'a list) list" where
  "map_set_delete k v m =
     (case map_of m k of
        None \<Rightarrow> m
      | Some xs \<Rightarrow>
          let xs' = removeAll v xs
          in if xs' = [] then AList.delete k m else AList.update k xs' m)"

definition removeSymbol :: "string \<Rightarrow> SymbolIndexer \<Rightarrow> SymbolIndexer" where
  "removeSymbol symbolId st =
     (case map_of (symbols st) symbolId of
        None \<Rightarrow> st
      | Some sy \<Rightarrow>
          st\<lparr>symbols := AList.delete symbolId (symbols st),
             nameIndex := map_set_delete (sym_name sy) symbolId (nameIndex st),
             pathIndex := map_set_delete (sym_path sy) symbolId (pathIndex st)\<rparr>)"

definition make_symbol :: "string \<Rightarrow> string \<Rightarrow> string \<times> string \<times> nat \<Rightarrow> Symbol" where
  "make_symbol cwd filePath' m = (case m of (name, k, lineNum) \<Rightarrow>
     \<lparr>sym_id = generateSymbolId filePath' name lineNum,
      repo = dirname filePath',
      sym_path = resolve cwd filePath',
      sym_name = name,
      kind = k,
      startLine = int lineNum,
      endLine = int lineNum,
      nodeType = k,
      hash = computeHash (filePath' @ '':'' @ name @ '':'' @ show_nat lineNum)\<rparr>)"

definition indexSingleFile :: "string \<Rightarrow> string \<Rightarrow> string \<Rightarrow> SymbolIndexer \<Rightarrow> SymbolIndexer" where
  "indexSingleFile cwd filePath' content st =
     fold (\<lambda>m. addSymbol (make_symbol cwd filePath' m)) (extractSymbols content) st"

text \<open>
  \<^verbatim>\<open>updateFile(filePath, content?)\<close>.  The optional content is \<open>None\<close> when absent;
  \<^verbatim>\<open>content || fs.readFileSync(filePath, "utf8")\<close> reads the file when the content is absent
  or the empty string.  The file system is a parameter (\<open>None\<close>: the read throws).  The
  loop over \<^verbatim>\<open>existingIds\<close> visits the ids present when it starts: \<^verbatim>\<open>removeSymbol(id)\<close>
  deletes from that set no id but \<open>id\<close> itself.  An exception leaves the table as the
  removal loop left it.
\<close>

datatype IndexError = ReadFailed

definition updateFile ::
  "string \<Rightarrow> (string \<Rightarrow> string option) \<Rightarrow> string \<Rightarrow> string option \<Rightarrow> SymbolIndexer \<Rightarrow>
   SymbolIndexer \<times> IndexError option" where
  "updateFile cwd fs filePath' content st =
     (let existingIds = get_or_empty (pathIndex st) filePath';
          st1 = fold removeSymbol existingIds st;
          fileContent = (case content of
                           None \<Rightarrow> fs filePath'
                         | Some c \<Rightarrow> if c \<noteq> [] then Some c else fs filePath')
      in case fileContent of
           None \<Rightarrow> (st1, Some ReadFailed)
         | Some c \<Rightarrow> (indexSingleFile cwd filePath' c st1, None))"

definition getSymbolsInFile :: "string \<Rightarrow> SymbolIndexer \<Rightarrow> Symbol list" where
  "getSymbolsInFile filePath' st =
     List.map_filter (map_of (symbols st)) (get_or_empty (pathIndex st) filePath')"

definition listSymbols :: "SymbolIndexer \<Rightarrow> Symbol list" where
  "listSymbols st = map snd (symbols st)"

definition findByName :: "string \<Rightarrow> SymbolIndexer \<Rightarrow> Symbol list" where
  "findByName name st = List.map_filter (map_of (symbols st)) (get_or_empty (nameIndex st) name)"

lemmas extract_eval = extractSymbols_def patterns_def match_all.simps exec_from.simps
  in_class_def lineNumber_def

lemmas path_eval = resolve_def normalize_step_def basename_def dirname_def generateSymbolId_def
  show_nat.simps

lemmas index_eval = updateFile_def indexSingleFile_def make_symbol_def addSymbol_def
  removeSymbol_def map_set_delete_def map_set_add_def get_or_empty_def set_add_def
  getSymbolsInFile_def listSymbols_def empty_index_def



lemma extract_module_foo: "extractSymbols ''module foo'' = [(''foo'', ''module'', 0)]"
  by (simp add: extract_eval)

lemma extract_module_a: "extractSymbols ''module a'' = [(''a'', ''module'', 0)]"
  by (simp add: extract_eval)

lemma extract_module_b: "extractSymbols ''module b'' = [(''b'', ''module'', 0)]"
  by (simp add: extract_eval)


definition no_files :: "string \<Rightarrow> string option" where
  "no_files p = None"

text \<open>
  C10 fails on the code.  Symbol ids are built from the base name of the file, so the
  files \<open>/a/x.v\<close> and \<open>/b/x.v\<close>, each declaring module \<open>foo\<close> on line 0, share the id
  \<open>x.v:foo:0\<close>.  After both are indexed, the symbol reported for \<open>/a/x.v\<close> is the one
  whose path is \<open>/b/x.v\<close>.
\<close>

theorem same_basename_symbols_collide:
  "map (\<lambda>s. (sym_id s, sym_path s, sym_name s))
     (getSymbolsInFile ''/a/x.v''
        (fst (updateFile ''/w'' no_files ''/b/x.v'' (Some ''module foo'')
           (fst (updateFile ''/w'' no_files ''/a/x.v'' (Some ''module foo'') empty_index))))) =
     [(''x.v:foo:0'', ''/b/x.v'', ''foo'')]"
  by (simp add: index_eval extract_module_foo path_eval)

definition disk_a :: "string \<Rightarrow> string option" where
  "disk_a p = (if p = ''/w/a.v'' then Some ''module a'' else None)"

text \<open>
  C4 fails on the code.  \<open>updateFile\<close> looks the existing ids up under the path as given,
  while symbols are stored under the resolved path: with the relative path \<open>a.v\<close> in the
  working directory \<open>/w\<close> nothing is removed, and the module \<open>a\<close> of the first content
  is still listed for \<open>/w/a.v\<close> after the second update.  An empty second content counts
  as absent, so the file is read again: with the first content still on disk its module
  \<open>a\<close> stays although the empty content declares nothing.
\<close>

theorem updateFile_keeps_stale_symbols:
  "map sym_name
     (getSymbolsInFile ''/w/a.v''
        (fst (updateFile ''/w'' no_files ''a.v'' (Some ''module b'')
           (fst (updateFile ''/w'' no_files ''a.v'' (Some ''module a'') empty_index))))) =
     [''a'', ''b''] \<and>
   extractSymbols [] = [] \<and>
   map sym_name
     (getSymbolsInFile ''/w/a.v''
        (fst (updateFile ''/w'' disk_a ''/w/a.v'' (Some [])
           (fst (updateFile ''/w'' disk_a ''/w/a.v'' (Some ''module a'') empty_index))))) =
     [''a'']"
  by (simp add: index_eval extract_module_a extract_module_b path_eval disk_a_def no_files_def)
    (simp add: extract_eval)



subsection \<open>The table as a map of symbols and a map of id sets\<close>

definition syms :: "SymbolIndexer \<Rightarrow> string \<Rightarrow> Symbol option" where
  "syms st = map_of (symbols st)"

definition pids :: "SymbolIndexer \<Rightarrow> string \<Rightarrow> string set" where
  "pids st q = set (get_or_empty (pathIndex st) q)"

lemma set_get_or_empty_map_set_add:
  "set (get_or_empty (map_set_add k v m) q) =
     (if q = k then insert v (set (get_or_empty m k)) else set (get_or_empty m q))"
  by (simp add: get_or_empty_map_set_add)

lemma set_get_or_empty_map_set_delete:
  "set (get_or_empty (map_set_delete k v m) q) =
     (if q = k then set (get_or_empty m k) - {v} else set (get_or_empty m q))"
proof (cases "map_of m k")
  case None
  then show ?thesis by (simp add: map_set_delete_def get_or_empty_def)
next
  case (Some xs)
  show ?thesis
  proof (cases "removeAll v xs = []")
    case True
    then have "set xs - {v} = {}" by (metis set_removeAll set_empty)
    with Some True show ?thesis
      by (simp add: map_set_delete_def get_or_empty_def delete_conv')
  next
    case False
    with Some show ?thesis
      by (auto simp: map_set_delete_def get_or_empty_def update_conv')
  qed
qed

lemma syms_addSymbol: "syms (addSymbol n st) = (syms st)(sym_id n \<mapsto> n)"
  by (simp add: syms_def addSymbol_def update_conv')

lemma pids_addSymbol:
  "pids (addSymbol n st) q = (if q = sym_path n then insert (sym_id n) (pids st q) else pids st q)"
  by (simp add: pids_def addSymbol_def set_get_or_empty_map_set_add)

lemma syms_removeSymbol: "syms (removeSymbol i st) = (syms st)(i := None)"
  by (cases "map_of (symbols st) i") (auto simp: syms_def removeSymbol_def delete_conv')

lemma pids_removeSymbol:
  "pids (removeSymbol i st) q =
     (case syms st i of
        None \<Rightarrow> pids st q
      | Some s \<Rightarrow> if sym_path s = q then pids st q - {i} else pids st q)"
  by (cases "map_of (symbols st) i")
    (simp_all add: syms_def pids_def removeSymbol_def set_get_or_empty_map_set_delete)

lemma fold_removeSymbol_abs:
  "syms (fold removeSymbol ids st) = (\<lambda>i. if i \<in> set ids then None else syms st i) \<and>
   (\<forall>q. pids (fold removeSymbol ids st) q =
      pids st q - {i \<in> set ids. \<exists>s. syms st i = Some s \<and> sym_path s = q})"
proof (induction ids arbitrary: st)
  case Nil
  show ?case by simp
next
  case (Cons i ids)
  let ?st = "removeSymbol i st"
  have s: "syms ?st = (syms st)(i := None)" by (rule syms_removeSymbol)
  have 1: "syms (fold removeSymbol (i # ids) st) =
      (\<lambda>j. if j \<in> set (i # ids) then None else syms st j)"
    using Cons [of ?st] by (auto simp: s)
  have 2: "pids (fold removeSymbol (i # ids) st) q =
      pids st q - {j \<in> set (i # ids). \<exists>s. syms st j = Some s \<and> sym_path s = q}" for q
  proof -
    have "pids (fold removeSymbol (i # ids) st) q =
        pids ?st q - {j \<in> set ids. \<exists>s. syms ?st j = Some s \<and> sym_path s = q}"
      using Cons [of ?st] by simp
    also have "\<dots> = pids st q - {j \<in> set (i # ids). \<exists>s. syms st j = Some s \<and> sym_path s = q}"
      by (cases "syms st i") (auto simp: s pids_removeSymbol)
    finally show ?thesis .
  qed
  from 1 2 show ?case by blast
qed

lemma fold_addSymbol_abs:
  "syms (fold addSymbol ns st) =
     (\<lambda>i. case map_of (rev (map (\<lambda>n. (sym_id n, n)) ns)) i of
             Some n \<Rightarrow> Some n
           | None \<Rightarrow> syms st i) \<and>
   (\<forall>q. pids (fold addSymbol ns st) q = pids st q \<union> sym_id ` {n \<in> set ns. sym_path n = q})"
proof (induction ns arbitrary: st)
  case Nil
  show ?case by simp
next
  case (Cons n ns)
  let ?st = "addSymbol n st"
  have 1: "syms (fold addSymbol (n # ns) st) =
     (\<lambda>i. case map_of (rev (map (\<lambda>n. (sym_id n, n)) (n # ns))) i of
             Some n \<Rightarrow> Some n
           | None \<Rightarrow> syms st i)"
    using Cons [of ?st]
    by (auto simp: syms_addSymbol map_add_def split: option.splits)
  have 2: "pids (fold addSymbol (n # ns) st) q =
      pids st q \<union> sym_id ` {m \<in> set (n # ns). sym_path m = q}" for q
    using Cons [of ?st] by (auto simp: pids_addSymbol)
  from 1 2 show ?case by blast
qed

text \<open>The symbols that one call of \<open>updateFile\<close> inserts.\<close>

definition new_symbols ::
  "string \<Rightarrow> (string \<Rightarrow> string option) \<Rightarrow> string \<Rightarrow> string option \<Rightarrow> Symbol list" where
  "new_symbols cwd fs filePath' content =
     (case (case content of
              None \<Rightarrow> fs filePath'
            | Some c \<Rightarrow> if c \<noteq> [] then Some c else fs filePath') of
        None \<Rightarrow> []
      | Some c \<Rightarrow> map (make_symbol cwd filePath') (extractSymbols c))"

lemma updateFile_conv:
  "fst (updateFile cwd fs p c st) =
     fold addSymbol (new_symbols cwd fs p c) (fold removeSymbol (get_or_empty (pathIndex st) p) st)"
  by (simp add: updateFile_def new_symbols_def indexSingleFile_def Let_def fold_map o_def
      split: option.splits)

lemma new_symbols_path: "n \<in> set (new_symbols cwd fs p c) \<Longrightarrow> sym_path n = resolve cwd p"
  by (auto simp: new_symbols_def make_symbol_def split: option.splits if_splits)

lemma updateFile_abs:
  fixes cwd fs p c
  defines "N \<equiv> new_symbols cwd fs p c"
  defines "M \<equiv> map_of (rev (map (\<lambda>n. (sym_id n, n)) N))"
  shows "syms (fst (updateFile cwd fs p c st)) =
      (\<lambda>i. case M i of Some n \<Rightarrow> Some n | None \<Rightarrow> if i \<in> pids st p then None else syms st i)"
    and "pids (fst (updateFile cwd fs p c st)) q =
      (pids st q - {i \<in> pids st p. \<exists>s. syms st i = Some s \<and> sym_path s = q}) \<union>
      (if q = resolve cwd p then dom M else {})"
proof -
  let ?st1 = "fold removeSymbol (get_or_empty (pathIndex st) p) st"
  from fold_removeSymbol_abs [of "get_or_empty (pathIndex st) p" st]
  have r1: "syms ?st1 = (\<lambda>i. if i \<in> pids st p then None else syms st i)"
    and r2: "\<And>q. pids ?st1 q = pids st q - {i \<in> pids st p. \<exists>s. syms st i = Some s \<and> sym_path s = q}"
    by (simp_all add: pids_def)
  from fold_addSymbol_abs [of N ?st1]
  have a1: "syms (fold addSymbol N ?st1) =
      (\<lambda>i. case M i of Some n \<Rightarrow> Some n | None \<Rightarrow> syms ?st1 i)"
    and a2: "\<And>q. pids (fold addSymbol N ?st1) q = pids ?st1 q \<union> sym_id ` {n \<in> set N. sym_path n = q}"
    by (simp_all add: M_def)
  have u: "fst (updateFile cwd fs p c st) = fold addSymbol N ?st1"
    by (simp add: updateFile_conv N_def)
  show "syms (fst (updateFile cwd fs p c st)) =
      (\<lambda>i. case M i of Some n \<Rightarrow> Some n | None \<Rightarrow> if i \<in> pids st p then None else syms st i)"
    unfolding u a1 r1 ..
  have d: "dom M = sym_id ` set N"
    by (auto simp: M_def dom_map_of_conv_image_fst image_image)
  have "sym_id ` {n \<in> set N. sym_path n = q} = (if q = resolve cwd p then dom M else {})"
    using new_symbols_path [of _ cwd fs p c] by (auto simp: d N_def)
  then show "pids (fst (updateFile cwd fs p c st)) q =
      (pids st q - {i \<in> pids st p. \<exists>s. syms st i = Some s \<and> sym_path s = q}) \<union>
      (if q = resolve cwd p then dom M else {})"
    unfolding u a2 r2 by simp
qed


lemma set_getSymbolsInFile:
  "set (getSymbolsInFile q st) = {s. \<exists>i\<in>pids st q. syms st i = Some s}"
  by (simp add: getSymbolsInFile_def set_map_filter_conv pids_def syms_def)

lemma updateFile_twice_abs:
  "syms (fst (updateFile cwd fs p c (fst (updateFile cwd fs p c st)))) =
     syms (fst (updateFile cwd fs p c st))"
  "pids (fst (updateFile cwd fs p c (fst (updateFile cwd fs p c st)))) q =
     pids (fst (updateFile cwd fs p c st)) q"
proof -
  define M where "M = map_of (rev (map (\<lambda>n. (sym_id n, n)) (new_symbols cwd fs p c)))"
  define P where "P = resolve cwd p"
  let ?u1 = "fst (updateFile cwd fs p c st)"
  let ?u2 = "fst (updateFile cwd fs p c ?u1)"
  have MP: "sym_path n = P" if "M i = Some n" for i n
  proof -
    from that have "(i, n) \<in> set (rev (map (\<lambda>n. (sym_id n, n)) (new_symbols cwd fs p c)))"
      unfolding M_def by (rule map_of_SomeD)
    then have "n \<in> set (new_symbols cwd fs p c)" by auto
    then show ?thesis unfolding P_def by (rule new_symbols_path)
  qed
  have S1: "syms ?u1 i = (case M i of Some n \<Rightarrow> Some n | None \<Rightarrow>
      if i \<in> pids st p then None else syms st i)" for i
    using updateFile_abs(1) [of cwd fs p c st] by (simp add: M_def)
  have P1: "pids ?u1 q =
      (pids st q - {i \<in> pids st p. \<exists>s. syms st i = Some s \<and> sym_path s = q}) \<union>
      (if q = P then dom M else {})" for q
    using updateFile_abs(2) [of cwd fs p c st q] by (simp add: M_def P_def)
  have S2: "syms ?u2 i = (case M i of Some n \<Rightarrow> Some n | None \<Rightarrow>
      if i \<in> pids ?u1 p then None else syms ?u1 i)" for i
    using updateFile_abs(1) [of cwd fs p c ?u1] by (simp add: M_def)
  have P2: "pids ?u2 q =
      (pids ?u1 q - {i \<in> pids ?u1 p. \<exists>s. syms ?u1 i = Some s \<and> sym_path s = q}) \<union>
      (if q = P then dom M else {})" for q
    using updateFile_abs(2) [of cwd fs p c ?u1 q] by (simp add: M_def P_def)
  have gone: "syms ?u1 i = None" if "i \<in> pids ?u1 p" "M i = None" for i
  proof -
    from that have "i \<in> pids st p" unfolding P1 [of p] by (auto split: if_splits)
    with that(2) show ?thesis by (simp add: S1)
  qed
  show "syms ?u2 = syms ?u1"
  proof
    fix i
    show "syms ?u2 i = syms ?u1 i"
    proof (cases "M i")
      case None
      with gone [of i] show ?thesis by (simp add: S2)
    next
      case (Some n)
      then show ?thesis by (simp add: S2 S1)
    qed
  qed
  have removed: "{i \<in> pids ?u1 p. \<exists>s. syms ?u1 i = Some s \<and> sym_path s = q} \<subseteq>
      (if q = P then dom M else {})"
  proof
    fix i assume "i \<in> {i \<in> pids ?u1 p. \<exists>s. syms ?u1 i = Some s \<and> sym_path s = q}"
    then obtain s where i: "i \<in> pids ?u1 p" "syms ?u1 i = Some s" "sym_path s = q" by blast
    from gone [OF i(1)] i(2) obtain n where n: "M i = Some n" by (cases "M i") auto
    with i(2) have "s = n" by (simp add: S1)
    with MP [OF n] i(3) n show "i \<in> (if q = P then dom M else {})" by auto
  qed
  have has: "(if q = P then dom M else {}) \<subseteq> pids ?u1 q"
    unfolding P1 [of q] by auto
  show "pids ?u2 q = pids ?u1 q"
    unfolding P2 [of q] using removed has by blast
qed

text \<open>
  C5. For every table, path and content, a second \<open>updateFile\<close> with the same arguments
  leaves the table as the first call left it: the same symbol under every id, hence the
  same symbols for every path, and the same outcome.  When the path has no entry in the
  path index the call removes nothing and only inserts the symbols it extracts (none when
  the file cannot be read); with content supplied it is \<open>indexSingleFile\<close> alone.
\<close>

theorem updateFile_idempotent:
  "map_of (symbols (fst (updateFile cwd fs p c (fst (updateFile cwd fs p c st))))) =
     map_of (symbols (fst (updateFile cwd fs p c st))) \<and>
   (\<forall>q. set (getSymbolsInFile q (fst (updateFile cwd fs p c (fst (updateFile cwd fs p c st))))) =
        set (getSymbolsInFile q (fst (updateFile cwd fs p c st)))) \<and>
   snd (updateFile cwd fs p c (fst (updateFile cwd fs p c st))) = snd (updateFile cwd fs p c st) \<and>
   (map_of (pathIndex st) p = None \<longrightarrow>
      fst (updateFile cwd fs p c st) = fold addSymbol (new_symbols cwd fs p c) st) \<and>
   (map_of (pathIndex st) p = None \<and> c = Some content \<and> content \<noteq> [] \<longrightarrow>
      updateFile cwd fs p c st = (indexSingleFile cwd p content st, None))"
proof -
  have 1: "map_of (symbols (fst (updateFile cwd fs p c (fst (updateFile cwd fs p c st))))) =
     map_of (symbols (fst (updateFile cwd fs p c st)))"
    using updateFile_twice_abs(1) [of cwd fs p c st] by (simp add: syms_def)
  have 2: "set (getSymbolsInFile q (fst (updateFile cwd fs p c (fst (updateFile cwd fs p c st))))) =
        set (getSymbolsInFile q (fst (updateFile cwd fs p c st)))" for q
    unfolding set_getSymbolsInFile updateFile_twice_abs ..
  have 3: "snd (updateFile cwd fs p c st') = snd (updateFile cwd fs p c st)" for st'
    by (simp add: updateFile_def Let_def split: option.splits)
  have 4: "updateFile cwd fs p c st = (indexSingleFile cwd p content st, None)"
    if "map_of (pathIndex st) p = None \<and> c = Some content \<and> content \<noteq> []"
    using that by (simp add: updateFile_def get_or_empty_def)
  have 5: "fst (updateFile cwd fs p c st) = fold addSymbol (new_symbols cwd fs p c) st"
    if "map_of (pathIndex st) p = None"
    using that by (simp add: updateFile_conv get_or_empty_def)
  from 1 2 3 4 5 show ?thesis by blast
qed

theorem updateFile_idempotent_witness:
  "set (getSymbolsInFile ''/w/a.v''
      (fst (updateFile ''/w'' no_files ''/w/a.v'' (Some ''module a'')
         (fst (updateFile ''/w'' no_files ''/w/a.v'' (Some ''module a'') empty_index))))) =
   set (getSymbolsInFile ''/w/a.v''
      (fst (updateFile ''/w'' no_files ''/w/a.v'' (Some ''module a'') empty_index))) \<and>
   map sym_name (getSymbolsInFile ''/w/a.v''
      (fst (updateFile ''/w'' no_files ''/w/a.v'' (Some ''module a'') empty_index))) = [''a''] \<and>
   updateFile ''/w'' no_files ''/w/a.v'' (Some ''module a'') empty_index =
     (indexSingleFile ''/w'' ''/w/a.v'' ''module a'' empty_index, None)"
proof -
  note t = updateFile_idempotent [of "''/w''" no_files "''/w/a.v''" "Some ''module a''" empty_index
      "''module a''"]
  have h: "map_of (pathIndex empty_index) ''/w/a.v'' = None"
    by (simp add: empty_index_def)
  have n: "map sym_name (getSymbolsInFile ''/w/a.v''
      (fst (updateFile ''/w'' no_files ''/w/a.v'' (Some ''module a'') empty_index))) = [''a'']"
    by (simp add: index_eval extract_module_a path_eval)
  have i: "updateFile ''/w'' no_files ''/w/a.v'' (Some ''module a'') empty_index =
     (indexSingleFile ''/w'' ''/w/a.v'' ''module a'' empty_index, None)"
    using t [THEN conjunct2, THEN conjunct2, THEN conjunct2, THEN conjunct2, rule_format] h by simp
  show ?thesis
    using t [THEN conjunct2, THEN conjunct1, rule_format, of "''/w/a.v''"] n i
    by (intro conjI)
qed


text \<open>
  For a path in resolved form the update does replace: the symbols then listed for the
  path are among those extracted by this call.
\<close>

lemma updateFile_replaces_resolved:
  assumes "resolve cwd p = p"
  shows "set (getSymbolsInFile p (fst (updateFile cwd fs p c st))) \<subseteq> set (new_symbols cwd fs p c)"
proof
  fix s
  let ?u = "fst (updateFile cwd fs p c st)"
  let ?M = "map_of (rev (map (\<lambda>n. (sym_id n, n)) (new_symbols cwd fs p c)))"
  assume "s \<in> set (getSymbolsInFile p ?u)"
  then obtain i where i: "i \<in> pids ?u p" "syms ?u i = Some s"
    unfolding set_getSymbolsInFile by blast
  show "s \<in> set (new_symbols cwd fs p c)"
  proof (cases "?M i")
    case None
    with i(1) have "i \<in> pids st p"
      unfolding updateFile_abs(2) [of cwd fs p c st p] by (auto simp: assms)
    with None i(2) show ?thesis
      by (simp add: updateFile_abs(1) [of cwd fs p c st])
  next
    case (Some n)
    with i(2) have "s = n" by (simp add: updateFile_abs(1) [of cwd fs p c st])
    moreover from Some have "(i, n) \<in> set (rev (map (\<lambda>n. (sym_id n, n)) (new_symbols cwd fs p c)))"
      by (rule map_of_SomeD)
    ultimately show ?thesis by auto
  qed
qed


end
